theory Spec2Isabelle
  imports Main "HOL-Library.Word" "HOL-Library.AList"
begin

section \<open>Dynamically typed values of \<^verbatim>\<open>src/wamp/dict.go\<close>\<close>

text \<open>
  The functions of \<^verbatim>\<open>dict.go\<close> work on \<^verbatim>\<open>interface{}\<close> values and dispatch on their
  dynamic type, by type assertion, type switch or \<^verbatim>\<open>reflect\<close>. A value of the embedding
  is the dynamic content of an \<^verbatim>\<open>interface{}\<close>: one constructor per dynamic type that the
  source distinguishes, and \<open>VOther\<close> for every other type (slices, structs, named
  scalar types such as \<^verbatim>\<open>type Flag bool\<close>, ...), none of which any assertion of the
  source matches.

  Machine integers are words of their width; \<^verbatim>\<open>int\<close> and \<^verbatim>\<open>uint\<close> are taken at 64 bits
  (a 64-bit target). A floating-point number is its exact binary value
  \<open>m * 2 ^ e\<close>, a NaN or an infinity.
\<close>

datatype gofloat = Finite int int | NaN | Inf bool

text \<open>
  A map key as \<^verbatim>\<open>reflect\<close> shows it. \<open>keyval\<close> is a key that is not of interface kind:
  of kind \<^verbatim>\<open>String\<close> (the type \<^verbatim>\<open>string\<close> or a named string type; \<^verbatim>\<open>String()\<close> gives its
  text), or of any other kind (\<open>KOther\<close>, which also stands for the invalid value that
  \<^verbatim>\<open>Elem()\<close> of a nil interface key returns). \<open>mapkey\<close> is a key of a map: \<open>Boxed k\<close>
  when the map's key type is an interface type (\<^verbatim>\<open>key.Kind() == reflect.Interface\<close>,
  \<^verbatim>\<open>key.Elem()\<close> is \<open>k\<close>), \<open>Direct k\<close> otherwise.
\<close>

datatype keyval = KString string | KOther nat

datatype mapkey = Direct keyval | Boxed keyval

text \<open>
  \<open>VDict m\<close> is a non-nil \<^verbatim>\<open>map[string]interface{}\<close> with contents \<open>m\<close>, \<open>VNilDict\<close> the nil
  map of that type. \<open>VMap es\<close> is a map of any other map type (\<^verbatim>\<open>map[string]int\<close>,
  \<^verbatim>\<open>map[interface{}]interface{}\<close>, a named type such as \<^verbatim>\<open>type Dict map[string]interface{}\<close>,
  ...), given by its entries in the order in which \<^verbatim>\<open>MapKeys()\<close> returns the keys, each
  value as \<^verbatim>\<open>MapIndex(key).Interface()\<close> returns it. Go leaves that order unspecified:
  a statement for all entry lists holds for every order. A nil map of such a type has no
  keys and is \<open>VMap []\<close>. Values are finite trees, as in the data model of the
  specification; maps that contain themselves are outside the embedding.
\<close>

datatype val =
    VNil
  | VBool bool
  | VInt "64 word"
  | VInt8 "8 word"
  | VInt16 "16 word"
  | VInt32 "32 word"
  | VInt64 "64 word"
  | VUint "64 word"
  | VUint8 "8 word"
  | VUint16 "16 word"
  | VUint32 "32 word"
  | VUint64 "64 word"
  | VFloat32 gofloat
  | VFloat64 gofloat
  | VString string
  | VNilDict
  | VDict "string \<rightharpoonup> val"
  | VMap "(mapkey \<times> val) list"
  | VOther nat

text \<open>
  A variable of type \<^verbatim>\<open>map[string]interface{}\<close>: \<open>None\<close> is the nil map, \<open>Some m\<close> a map
  with contents \<open>m\<close>. Reading a nil map finds no key.
\<close>

type_synonym dict = "(string \<rightharpoonup> val) option"

definition lookup :: "dict \<Rightarrow> string \<Rightarrow> val option" where
  "lookup dict key = (case dict of None \<Rightarrow> None | Some m \<Rightarrow> m key)"

text \<open>Storing a \<^verbatim>\<open>map[string]interface{}\<close> in an \<^verbatim>\<open>interface{}\<close>.\<close>

definition box :: "dict \<Rightarrow> val" where
  "box dict = (case dict of None \<Rightarrow> VNilDict | Some m \<Rightarrow> VDict m)"

text \<open>\<^verbatim>\<open>reflect.ValueOf(v).Kind() == reflect.Map\<close>.\<close>

fun is_map :: "val \<Rightarrow> bool" where
  "is_map VNilDict = True"
| "is_map (VDict m) = True"
| "is_map (VMap es) = True"
| "is_map v = False"

section \<open>NormalizeDict\<close>

text \<open>
  The key of one iteration after \<^verbatim>\<open>if key.Kind() == reflect.Interface { key = key.Elem() }\<close>.
\<close>

fun unwrap :: "mapkey \<Rightarrow> keyval" where
  "unwrap (Direct k) = k"
| "unwrap (Boxed k) = k"

text \<open>
  The rest of the loop body, given \<open>newVal\<close>, the value the body stores: a key that is
  not of kind \<^verbatim>\<open>String\<close> is skipped (\<^verbatim>\<open>continue\<close>), any other key is set in \<open>dict\<close>.
\<close>

definition store_entry :: "mapkey \<times> val \<Rightarrow> (string \<rightharpoonup> val) \<Rightarrow> (string \<rightharpoonup> val)" where
  "store_entry e dict =
     (case unwrap (fst e) of
        KString s \<Rightarrow> dict(s \<mapsto> snd e)
      | KOther k \<Rightarrow> dict)"

text \<open>
  \<^verbatim>\<open>NormalizeDict\<close>: nil for a value that is not of kind \<^verbatim>\<open>Map\<close>, otherwise a fresh map
  filled by the loop over the keys. The value stored for an entry \<open>cv\<close> is
  \<^verbatim>\<open>NormalizeDict(cv.Interface())\<close> when that is not nil and \<open>cv\<close> itself otherwise.
  The keys of a \<^verbatim>\<open>map[string]interface{}\<close> are distinct strings, so its loop sets
  every key of the input once and the result is the input map with the stored value at
  each key; the entries of any other map are folded in iteration order.
\<close>

primrec NormalizeDict :: "val \<Rightarrow> dict" where
  "NormalizeDict VNil = None"
| "NormalizeDict (VBool b) = None"
| "NormalizeDict (VInt i) = None"
| "NormalizeDict (VInt8 i) = None"
| "NormalizeDict (VInt16 i) = None"
| "NormalizeDict (VInt32 i) = None"
| "NormalizeDict (VInt64 i) = None"
| "NormalizeDict (VUint i) = None"
| "NormalizeDict (VUint8 i) = None"
| "NormalizeDict (VUint16 i) = None"
| "NormalizeDict (VUint32 i) = None"
| "NormalizeDict (VUint64 i) = None"
| "NormalizeDict (VFloat32 f) = None"
| "NormalizeDict (VFloat64 f) = None"
| "NormalizeDict (VString s) = None"
| "NormalizeDict (VOther k) = None"
| "NormalizeDict VNilDict = Some Map.empty"
| "NormalizeDict (VDict m) =
     Some (\<lambda>key. map_option
       (\<lambda>cv. case NormalizeDict cv of None \<Rightarrow> cv | Some newVal \<Rightarrow> VDict newVal) (m key))"
| "NormalizeDict (VMap es) =
     Some (fold store_entry
       (map (map_prod id
          (\<lambda>cv. case NormalizeDict cv of None \<Rightarrow> cv | Some newVal \<Rightarrow> VDict newVal)) es)
       Map.empty)"

text \<open>The value the loop body stores for the entry value \<open>cv\<close>.\<close>

definition stored :: "val \<Rightarrow> val" where
  "stored cv = (case NormalizeDict cv of None \<Rightarrow> cv | Some newVal \<Rightarrow> VDict newVal)"

section \<open>DictChild\<close>

text \<open>
  \<^verbatim>\<open>iface, ok := dict[key]\<close>; nil when the key is missing or the value is the nil
  interface; the value of the type assertion \<^verbatim>\<open>iface.(map[string]interface{})\<close> when it
  succeeds (also for a nil map of that type); \<^verbatim>\<open>NormalizeDict(iface)\<close> otherwise, which is
  nil when the value cannot be converted.
\<close>

definition DictChild :: "dict \<Rightarrow> string \<Rightarrow> dict" where
  "DictChild dict key =
     (case lookup dict key of
        None \<Rightarrow> None
      | Some VNil \<Rightarrow> None
      | Some VNilDict \<Rightarrow> None
      | Some (VDict child) \<Rightarrow> Some child
      | Some iface \<Rightarrow> NormalizeDict iface)"

section \<open>DictValue and DictFlag\<close>

text \<open>
  What a call can end with besides its result: a run-time panic of an index or slice
  expression out of range, or an error value made by \<^verbatim>\<open>errors.New\<close>.
\<close>

datatype error = IndexOutOfRange | ErrorsNew string

text \<open>\<^verbatim>\<open>strings.Join(elems, sep)\<close>.\<close>

fun Join :: "string list \<Rightarrow> string \<Rightarrow> string" where
  "Join [] sep = []"
| "Join [x] sep = x"
| "Join (x # y # ys) sep = x @ sep @ Join (y # ys) sep"

text \<open>
  The slice expression \<^verbatim>\<open>xs[:n]\<close> and the index expression \<^verbatim>\<open>xs[i]\<close> with Go's bounds
  checks; \<open>n\<close> and \<open>i\<close> are Go \<^verbatim>\<open>int\<close>s, so \<^verbatim>\<open>len(path)-1\<close> of an empty path is \<open>-1\<close>.
  Go checks the upper bound of a slice expression against the capacity; a list has none,
  and the bound here is the length, which is never larger.
\<close>

definition slice_to :: "'a list \<Rightarrow> int \<Rightarrow> error + 'a list" where
  "slice_to xs n =
     (if 0 \<le> n \<and> n \<le> int (length xs) then Inr (take (nat n) xs) else Inl IndexOutOfRange)"

definition index :: "'a list \<Rightarrow> int \<Rightarrow> error + 'a" where
  "index xs i =
     (if 0 \<le> i \<and> i < int (length xs) then Inr (xs ! nat i) else Inl IndexOutOfRange)"

text \<open>
  The loop \<^verbatim>\<open>for i := range path[:len(path)-1]\<close>: \<open>walk path dict i n\<close> runs the \<open>n\<close>
  iterations from index \<open>i\<close> on and yields the dict the loop ends with, or what the
  loop returns early.
\<close>

fun walk :: "string list \<Rightarrow> dict \<Rightarrow> int \<Rightarrow> nat \<Rightarrow> error + dict" where
  "walk path dict i 0 = Inr dict"
| "walk path dict i (Suc n) =
     (case index path i of
        Inl e \<Rightarrow> Inl e
      | Inr seg \<Rightarrow>
          (case DictChild dict seg of
             None \<Rightarrow>
               (case slice_to path (i + 1) of
                  Inl e \<Rightarrow> Inl e
                | Inr prefix \<Rightarrow> Inl (ErrorsNew (''cannot find: '' @ Join prefix ''.'')))
           | Some child \<Rightarrow> walk path (Some child) (i + 1) n))"

definition DictValue :: "dict \<Rightarrow> string list \<Rightarrow> error + val" where
  "DictValue dict path =
     (case slice_to path (int (length path) - 1) of
        Inl e \<Rightarrow> Inl e
      | Inr segs \<Rightarrow>
          (case walk path dict 0 (length segs) of
             Inl e \<Rightarrow> Inl e
           | Inr dict' \<Rightarrow>
               (case index path (int (length path) - 1) of
                  Inl e \<Rightarrow> Inl e
                | Inr final \<Rightarrow>
                    (case lookup dict' final of
                       None \<Rightarrow> Inl (ErrorsNew (''cannot find: '' @ Join path ''.''))
                     | Some v \<Rightarrow> Inr v))))"

definition DictFlag :: "dict \<Rightarrow> string list \<Rightarrow> error + bool" where
  "DictFlag dict path =
     (case DictValue dict path of
        Inl err \<Rightarrow> Inl err
      | Inr v \<Rightarrow>
          (case v of
             VBool b \<Rightarrow> Inr b
           | _ \<Rightarrow> Inl (ErrorsNew (Join path ''.'' @ '' is not a boolean type''))))"

section \<open>Options\<close>

definition OptionString :: "dict \<Rightarrow> string \<Rightarrow> string" where
  "OptionString opts optionName =
     (case lookup opts optionName of
        Some (VString s) \<Rightarrow> s
      | _ \<Rightarrow> [])"

text \<open>
  The conversion \<^verbatim>\<open>int64(f)\<close> of a \<^verbatim>\<open>float64\<close>: the fraction is discarded (truncation
  towards zero). Go leaves the result open when the truncated value is not an
  \<^verbatim>\<open>int64\<close>; the embedding takes what amd64 gives there, the smallest \<^verbatim>\<open>int64\<close>.
\<close>

definition truncation :: "int \<Rightarrow> int \<Rightarrow> int" where
  "truncation m e =
     (if 0 \<le> e then m * 2 ^ nat e
      else if 0 \<le> m then m div 2 ^ nat (- e)
      else - ((- m) div 2 ^ nat (- e)))"

definition int64_of_float :: "gofloat \<Rightarrow> 64 word" where
  "int64_of_float f =
     (case f of
        Finite m e \<Rightarrow>
          (let t = truncation m e
           in if - (2 ^ 63) \<le> t \<and> t < 2 ^ 63 then word_of_int t else word_of_int (- (2 ^ 63)))
      | _ \<Rightarrow> word_of_int (- (2 ^ 63)))"

text \<open>
  The type switch of \<^verbatim>\<open>OptionInt64\<close> has the cases \<^verbatim>\<open>int\<close>, \<^verbatim>\<open>int32\<close>, \<^verbatim>\<open>float64\<close>,
  \<^verbatim>\<open>uint\<close>, \<^verbatim>\<open>uint32\<close> and \<^verbatim>\<open>uint64\<close>, in this order, and no default; every other
  value falls through to \<^verbatim>\<open>return 0\<close>. A signed integer is sign-extended, an unsigned
  one zero-extended, and a 64-bit unsigned one keeps its bits.
\<close>

definition OptionInt64 :: "dict \<Rightarrow> string \<Rightarrow> 64 word" where
  "OptionInt64 opts optionName =
     (case lookup opts optionName of
        Some (VInt opt) \<Rightarrow> opt
      | Some (VInt32 opt) \<Rightarrow> scast opt
      | Some (VFloat64 opt) \<Rightarrow> int64_of_float opt
      | Some (VUint opt) \<Rightarrow> opt
      | Some (VUint32 opt) \<Rightarrow> ucast opt
      | Some (VUint64 opt) \<Rightarrow> opt
      | _ \<Rightarrow> 0)"

definition OptionFlag :: "dict \<Rightarrow> string \<Rightarrow> bool" where
  "OptionFlag opts optionName =
     (case lookup opts optionName of
        Some (VBool b) \<Rightarrow> b
      | _ \<Rightarrow> False)"

section \<open>SetOption\<close>

text \<open>
  \<^verbatim>\<open>SetOption\<close> is the one function that writes to a map it did not create, so here a
  map variable is a reference: the store holds the contents of the allocated
  \<^verbatim>\<open>map[string]interface{}\<close> objects, a reference is the index of an object in the
  store or nil, and a map literal allocates the next index. The functions that only read
  are functions of the contents, \<open>deref st r\<close> for a reference \<open>r\<close>.
\<close>

type_synonym store = "(string \<rightharpoonup> val) list"

type_synonym ref = "nat option"

definition deref :: "store \<Rightarrow> ref \<Rightarrow> dict" where
  "deref st r = (case r of None \<Rightarrow> None | Some a \<Rightarrow> Some (st ! a))"

definition alloc :: "store \<Rightarrow> (string \<rightharpoonup> val) \<Rightarrow> nat \<times> store" where
  "alloc st m = (length st, st @ [m])"

definition SetOption :: "store \<Rightarrow> ref \<Rightarrow> string \<Rightarrow> val \<Rightarrow> ref \<times> store" where
  "SetOption st dict name v =
     (let (a, st1) = (case dict of None \<Rightarrow> alloc st Map.empty | Some a \<Rightarrow> (a, st))
      in (Some a, st1[a := (st1 ! a)(name \<mapsto> v)]))"

section \<open>DictChild and NormalizeDict on references\<close>

text \<open>
  A Go map is a reference: \<^verbatim>\<open>DictChild\<close> can return the very map that \<open>dict\<close> holds, and
  a function that is handed a map can write to it. To say which map is returned and
  which maps are written, the two functions are given here on a heap of map objects. A
  value is then the nil interface, a \<^verbatim>\<open>map[string]interface{}\<close> (\<open>RDict\<close>: a reference, or
  the nil map of that type), a map of any other type (\<open>RMap\<close>, likewise), or a value
  that is neither nil nor a map (\<open>ROther\<close>; neither function looks into such a value). An
  object is the list of the entries of a map, in the order in which \<^verbatim>\<open>MapKeys()\<close> returns
  the keys; the keys of a \<^verbatim>\<open>map[string]interface{}\<close> are \<open>Direct (KString s)\<close>. A
  reference is the index of an object in the heap.
\<close>

datatype rval = RNil | RDict ref | RMap ref | ROther nat

type_synonym object = "(mapkey \<times> rval) list"

type_synonym heap = "object list"

text \<open>The entries of the map a reference stands for; a nil map has none.\<close>

definition entries_of :: "heap \<Rightarrow> ref \<Rightarrow> object" where
  "entries_of h r = (case r of None \<Rightarrow> [] | Some a \<Rightarrow> h ! a)"

text \<open>
  The map literal \<^verbatim>\<open>map[string]interface{}{}\<close> allocates an empty object at the next
  index, and \<^verbatim>\<open>dict[key.String()] = v\<close> sets the key in the object \<open>dict\<close> refers to.
\<close>

definition new_dict :: "heap \<Rightarrow> nat \<times> heap" where
  "new_dict h = (length h, h @ [[]])"

definition set_key :: "heap \<Rightarrow> nat \<Rightarrow> string \<Rightarrow> rval \<Rightarrow> heap" where
  "set_key h dict s v = h[dict := AList.update (Direct (KString s)) v (h ! dict)]"

text \<open>
  The loop of \<^verbatim>\<open>NormalizeDict\<close> over the entries of the input, with \<open>N\<close> for the recursive
  call and \<open>dict\<close> the new map: a key that is not a string is skipped before anything
  else is done; otherwise \<open>N\<close> runs on the value of the entry, and the key is set in
  \<open>dict\<close> to the value itself when \<open>N\<close> gives nil and to the map \<open>N\<close> gives otherwise.
  \<open>None\<close> is a recursive call that does not return. The loop writes to \<open>dict\<close> only,
  so the entries it reads with \<^verbatim>\<open>MapIndex\<close> are those the input has when the loop
  starts.
\<close>

fun norm_loop ::
  "(heap \<Rightarrow> rval \<Rightarrow> (ref \<times> heap) option) \<Rightarrow> object \<Rightarrow> nat \<Rightarrow> heap \<Rightarrow> heap option" where
  "norm_loop N [] dict h = Some h"
| "norm_loop N ((key, cv) # es) dict h =
     (case unwrap key of
        KOther k \<Rightarrow> norm_loop N es dict h
      | KString s \<Rightarrow>
          (case N h cv of
             None \<Rightarrow> None
           | Some (newVal, h1) \<Rightarrow>
               (case newVal of
                  None \<Rightarrow> norm_loop N es dict (set_key h1 dict s cv)
                | Some d \<Rightarrow> norm_loop N es dict (set_key h1 dict s (RDict (Some d))))))"

text \<open>The body of \<^verbatim>\<open>NormalizeDict\<close> for a value of kind \<^verbatim>\<open>Map\<close> with the entries \<open>es\<close>.\<close>

definition norm_map ::
  "(heap \<Rightarrow> rval \<Rightarrow> (ref \<times> heap) option) \<Rightarrow> object \<Rightarrow> heap \<Rightarrow> (ref \<times> heap) option" where
  "norm_map N es h =
     (let (dict, h1) = new_dict h
      in case norm_loop N es dict h1 of None \<Rightarrow> None | Some h2 \<Rightarrow> Some (Some dict, h2))"

text \<open>
  \<^verbatim>\<open>NormalizeDict\<close> with the heap passed through. A heap can hold a map that contains
  itself, on which the recursion of the source does not end, so the recursion takes a
  bound \<open>n\<close> on the depth of the calls, and the result is \<open>None\<close> when the bound is
  reached: \<open>NormalizeDict_heap n h v = Some (r, h')\<close> says that the call returns \<open>r\<close> and
  leaves the heap \<open>h'\<close>.
\<close>

fun NormalizeDict_heap :: "nat \<Rightarrow> heap \<Rightarrow> rval \<Rightarrow> (ref \<times> heap) option" where
  "NormalizeDict_heap n h RNil = Some (None, h)"
| "NormalizeDict_heap n h (ROther k) = Some (None, h)"
| "NormalizeDict_heap 0 h (RDict r) = None"
| "NormalizeDict_heap 0 h (RMap r) = None"
| "NormalizeDict_heap (Suc n) h (RDict r) = norm_map (NormalizeDict_heap n) (entries_of h r) h"
| "NormalizeDict_heap (Suc n) h (RMap r) = norm_map (NormalizeDict_heap n) (entries_of h r) h"

text \<open>
  \<^verbatim>\<open>DictChild\<close> with the heap passed through: nil for a missing key and for the nil
  interface; the stored reference, nil or not, when the type assertion
  \<^verbatim>\<open>iface.(map[string]interface{})\<close> succeeds; what \<^verbatim>\<open>NormalizeDict(iface)\<close> returns
  otherwise.
\<close>

definition DictChild_heap :: "nat \<Rightarrow> heap \<Rightarrow> ref \<Rightarrow> string \<Rightarrow> (ref \<times> heap) option" where
  "DictChild_heap n h dict key =
     (case map_of (entries_of h dict) (Direct (KString key)) of
        None \<Rightarrow> Some (None, h)
      | Some RNil \<Rightarrow> Some (None, h)
      | Some (RDict child) \<Rightarrow> Some (child, h)
      | Some iface \<Rightarrow> NormalizeDict_heap n h iface)"

section \<open>Notions used to state the properties\<close>

text \<open>
  Resolving a sequence of segments with the child resolver, from \<open>dict\<close> on: \<open>Some d\<close>
  when every segment gave a non-nil child and \<open>d\<close> is the last one (\<open>dict\<close> itself for
  no segment), \<open>None\<close> when some segment did not resolve.
\<close>

fun resolve :: "dict \<Rightarrow> string list \<Rightarrow> dict option" where
  "resolve dict [] = Some dict"
| "resolve dict (seg # segs) =
     (case DictChild dict seg of None \<Rightarrow> None | Some child \<Rightarrow> resolve (Some child) segs)"

text \<open>
  The text of a key that is a string, also when it is boxed in an interface; \<open>None\<close> for
  any other key. \<open>string_entries\<close> keeps the entries of a map whose keys are strings, in
  the order of the map, each with the value the normalizer stores for it.
\<close>

fun string_key :: "mapkey \<Rightarrow> string option" where
  "string_key (Direct (KString s)) = Some s"
| "string_key (Boxed (KString s)) = Some s"
| "string_key k = None"

definition string_entries :: "(mapkey \<times> val) list \<Rightarrow> (string \<times> val) list" where
  "string_entries es =
     List.map_filter (\<lambda>e. map_option (\<lambda>s. (s, stored (snd e))) (string_key (fst e))) es"

text \<open>
  Session details with one role, used as the concrete input of the examples:
  \<^verbatim>\<open>{"roles": {"callee": {"features": {"call_timeout": true, "progress": "yes", "none": nil}}}}\<close>.
\<close>

definition features :: "string \<rightharpoonup> val" where
  "features = [''call_timeout'' \<mapsto> VBool True, ''progress'' \<mapsto> VString ''yes'', ''none'' \<mapsto> VNil]"

definition roles :: "string \<rightharpoonup> val" where
  "roles = [''callee'' \<mapsto> VDict [''features'' \<mapsto> VDict features]]"

definition details :: dict where
  "details = Some [''roles'' \<mapsto> VDict roles]"

text \<open>
  A \<^verbatim>\<open>map[interface{}]interface{}\<close> with two string keys and one key that is not a
  string, the value at \<^verbatim>\<open>"a"\<close> a map of another type again; and a dict with values of each
  sort.
\<close>

definition entries :: "(mapkey \<times> val) list" where
  "entries = [(Boxed (KString ''a''), VMap [(Direct (KString ''b''), VInt 1)]),
              (Boxed (KOther 7), VBool True),
              (Boxed (KString ''c''), VString ''x'')]"

definition foreign :: val where
  "foreign = VMap entries"

definition session :: dict where
  "session = Some [''none'' \<mapsto> VNil, ''nildict'' \<mapsto> VNilDict,
                   ''features'' \<mapsto> VDict features, ''foreign'' \<mapsto> foreign,
                   ''count'' \<mapsto> VInt 1]"

text \<open>
  The value a dict holds at a key, and the values that are finite trees: \<open>bounded n h v\<close>
  holds when the maps of \<open>v\<close> are nested at most \<open>n\<close> deep and every reference in them is
  an index of the heap.
\<close>

definition stored_at :: "heap \<Rightarrow> ref \<Rightarrow> string \<Rightarrow> rval option" where
  "stored_at h dict key = map_of (entries_of h dict) (Direct (KString key))"

fun bounded :: "nat \<Rightarrow> heap \<Rightarrow> rval \<Rightarrow> bool" where
  "bounded n h RNil = True"
| "bounded n h (ROther k) = True"
| "bounded 0 h (RDict r) = False"
| "bounded 0 h (RMap r) = False"
| "bounded (Suc n) h (RDict r) =
     (case r of None \<Rightarrow> True
      | Some a \<Rightarrow> a < length h \<and> list_all (\<lambda>e. bounded n h (snd e)) (h ! a))"
| "bounded (Suc n) h (RMap r) =
     (case r of None \<Rightarrow> True
      | Some a \<Rightarrow> a < length h \<and> list_all (\<lambda>e. bounded n h (snd e)) (h ! a))"

text \<open>
  The heap read as contents. \<open>tree X n h v\<close> holds when \<open>v\<close> is a finite tree in \<open>h\<close>
  (as \<open>bounded n h v\<close>) that reaches no object of \<open>X\<close> and in which the keys of every
  \<^verbatim>\<open>map[string]interface{}\<close> are strings, each once. \<open>view n h v\<close> is such a value as a
  value of the first sections, \<open>cont n h a\<close> the contents of the dict at \<open>a\<close>, and
  \<open>contents n h r\<close> the dict a reference stands for. \<open>agree a h h'\<close> holds when \<open>h'\<close> has
  every object of \<open>h\<close> but possibly \<open>a\<close> as it is in \<open>h\<close>. \<open>body\<close> is the loop body of the
  normalizer on contents.
\<close>

fun plain_string :: "mapkey \<Rightarrow> bool" where
  "plain_string (Direct (KString s)) = True"
| "plain_string k = False"

fun tree :: "nat set \<Rightarrow> nat \<Rightarrow> heap \<Rightarrow> rval \<Rightarrow> bool" where
  "tree X n h RNil = True"
| "tree X n h (ROther k) = True"
| "tree X 0 h (RDict r) = False"
| "tree X 0 h (RMap r) = False"
| "tree X (Suc n) h (RDict r) =
     (case r of None \<Rightarrow> True
      | Some a \<Rightarrow> a \<notin> X \<and> a < length h \<and> list_all (\<lambda>e. tree X n h (snd e)) (h ! a) \<and>
          list_all (\<lambda>e. plain_string (fst e)) (h ! a) \<and> distinct (map fst (h ! a)))"
| "tree X (Suc n) h (RMap r) =
     (case r of None \<Rightarrow> True
      | Some a \<Rightarrow> a \<notin> X \<and> a < length h \<and> list_all (\<lambda>e. tree X n h (snd e)) (h ! a))"

fun view :: "nat \<Rightarrow> heap \<Rightarrow> rval \<Rightarrow> val" where
  "view n h RNil = VNil"
| "view n h (ROther k) = VOther k"
| "view 0 h (RDict r) = VNilDict"
| "view 0 h (RMap r) = VMap []"
| "view (Suc n) h (RDict r) =
     (case r of None \<Rightarrow> VNilDict
      | Some a \<Rightarrow> VDict (\<lambda>s. map_option (view n h) (map_of (h ! a) (Direct (KString s)))))"
| "view (Suc n) h (RMap r) = VMap (map (\<lambda>e. (fst e, view n h (snd e))) (entries_of h r))"

definition cont :: "nat \<Rightarrow> heap \<Rightarrow> nat \<Rightarrow> (string \<rightharpoonup> val)" where
  "cont n h a = (\<lambda>s. map_option (view n h) (map_of (h ! a) (Direct (KString s))))"

abbreviation (input) body :: "mapkey \<times> val \<Rightarrow> (string \<rightharpoonup> val) \<Rightarrow> (string \<rightharpoonup> val)" where
  "body \<equiv> (\<lambda>(key, cv) dict.
             case unwrap key of KString s \<Rightarrow> dict(s \<mapsto> stored cv) | KOther k \<Rightarrow> dict)"

definition contents :: "nat \<Rightarrow> heap \<Rightarrow> ref \<Rightarrow> dict" where
  "contents n h r = map_option (cont n h) r"

fun key_text :: "mapkey \<Rightarrow> string" where
  "key_text (Direct (KString s)) = s"
| "key_text k = []"

definition agree :: "nat \<Rightarrow> heap \<Rightarrow> heap \<Rightarrow> bool" where
  "agree a h h' \<longleftrightarrow> length h \<le> length h' \<and> (\<forall>b<length h. b \<noteq> a \<longrightarrow> h' ! b = h ! b)"

text \<open>
  A heap of four maps: session details (object 0) that hold a
  \<^verbatim>\<open>map[string]interface{}\<close> (object 1), a \<^verbatim>\<open>map[interface{}]interface{}\<close> (object 2) with a
  map of another type in it (object 3), the nil interface, a nil map of each sort and a
  number; and the same heap after the map at \<^verbatim>\<open>"foreign"\<close> is normalized into the new
  objects 4 and 5.
\<close>

definition heap0 :: heap where
  "heap0 =
     [[(Direct (KString ''features''), RDict (Some 1)),
       (Direct (KString ''foreign''), RMap (Some 2)),
       (Direct (KString ''none''), RNil),
       (Direct (KString ''nildict''), RDict None),
       (Direct (KString ''nilmap''), RMap None),
       (Direct (KString ''count''), ROther 0)],
      [(Direct (KString ''call_timeout''), ROther 1)],
      [(Boxed (KString ''a''), RMap (Some 3)),
       (Boxed (KOther 7), ROther 2),
       (Boxed (KString ''c''), ROther 3)],
      [(Direct (KString ''b''), ROther 4)]]"

definition heap1 :: heap where
  "heap1 = heap0 @
     [[(Direct (KString ''a''), RDict (Some 5)), (Direct (KString ''c''), ROther 3)],
      [(Direct (KString ''b''), ROther 4)]]"

text \<open>
  The entries of a \<^verbatim>\<open>map[interface{}]interface{}\<close> with the two keys \<^verbatim>\<open>"a"\<close> and \<^verbatim>\<open>K("a")\<close>,
  for a type \<^verbatim>\<open>type K string\<close>: two keys of the map, both strings with the text \<^verbatim>\<open>a\<close>.
\<close>

definition collide :: "(mapkey \<times> val) list" where
  "collide = [(Boxed (KString ''a''), VInt 1), (Boxed (KString ''a''), VInt 2)]"

section \<open>OptionInt64\<close>

text \<open>
  C1. \<^verbatim>\<open>OptionInt64\<close> is to return the stored number, as an \<^verbatim>\<open>int64\<close>, for an integer of
  every width, \<^verbatim>\<open>int64\<close> among them, and for a floating-point number. The type switch
  has no case for \<^verbatim>\<open>int64\<close> (nor for \<^verbatim>\<open>int8\<close>, \<^verbatim>\<open>int16\<close>, \<^verbatim>\<open>uint8\<close>, \<^verbatim>\<open>uint16\<close> and
  \<^verbatim>\<open>float32\<close>): for the options \<^verbatim>\<open>{"timeout": int64(5)}\<close> the function returns 0, not 5.
\<close>

theorem OptionInt64_int64_is_zero:
  "OptionInt64 (Some [''timeout'' \<mapsto> VInt64 5]) ''timeout'' = 0"
  by (simp add: OptionInt64_def lookup_def)

text \<open>
  The cases the switch does have convert the value, and a key that is absent or whose
  value is nil or of a type without a case gives 0.
\<close>

lemma sint_ucast32: "sint (ucast (u :: 32 word) :: 64 word) = uint u"
proof -
  have "uint u < 2 ^ 32" using uint_bounded [of u] by simp
  moreover have "- (2 ^ 63) \<le> uint u"
    by (rule order_trans [OF _ uint_ge_0]) simp
  ultimately show ?thesis
    by (simp add: signed_ucast_eq signed_take_bit_int_eq_self_iff)
qed

lemma OptionInt64_switch:
  "lookup opts n = Some (VInt i) \<Longrightarrow> OptionInt64 opts n = i"
  "lookup opts n = Some (VInt32 i32) \<Longrightarrow> sint (OptionInt64 opts n) = sint i32"
  "lookup opts n = Some (VUint u) \<Longrightarrow> OptionInt64 opts n = u"
  "lookup opts n = Some (VUint32 u32) \<Longrightarrow> sint (OptionInt64 opts n) = uint u32"
  "lookup opts n = Some (VUint64 u) \<Longrightarrow> OptionInt64 opts n = u"
  "lookup opts n = Some (VFloat64 f) \<Longrightarrow> OptionInt64 opts n = int64_of_float f"
  "lookup opts n = None \<Longrightarrow> OptionInt64 opts n = 0"
  "lookup opts n = Some VNil \<Longrightarrow> OptionInt64 opts n = 0"
  "lookup opts n = Some (VString s) \<Longrightarrow> OptionInt64 opts n = 0"
  by (simp_all add: OptionInt64_def sint_up_scast is_up sint_ucast32)

lemma int64_of_float_in_range:
  "- (2 ^ 63) \<le> truncation m e \<Longrightarrow> truncation m e < 2 ^ 63 \<Longrightarrow>
   sint (int64_of_float (Finite m e)) = truncation m e"
  by (simp add: int64_of_float_def sint_sbintrunc' signed_take_bit_int_eq_self)

text \<open>\<^verbatim>\<open>float64(5.9)\<close> is \<open>3321404725185741 * 2 ^ -49\<close> and becomes 5.\<close>

lemma OptionInt64_float64_example:
  "OptionInt64 (Some [''timeout'' \<mapsto> VFloat64 (Finite 3321404725185741 (- 49))]) ''timeout'' = 5"
  by (simp add: OptionInt64_def lookup_def int64_of_float_def truncation_def)

section \<open>The path resolver\<close>

lemma index_ok: "i < length xs \<Longrightarrow> index xs (int i) = Inr (xs ! i)"
  by (simp add: index_def)

lemma slice_to_ok: "n \<le> length xs \<Longrightarrow> slice_to xs (int n) = Inr (take n xs)"
  by (simp add: slice_to_def)

lemma len_pred: "path \<noteq> [] \<Longrightarrow> int (length path) - 1 = int (length path - 1)"
  by (cases path) simp_all

lemma final_slice:
  "path \<noteq> [] \<Longrightarrow> slice_to path (int (length path) - 1) = Inr (butlast path)"
  using slice_to_ok [of "length path - 1" path]
  by (simp add: len_pred butlast_conv_take)

lemma final_index:
  "path \<noteq> [] \<Longrightarrow> index path (int (length path) - 1) = Inr (last path)"
  using index_ok [of "length path - 1" path]
  by (simp add: len_pred last_conv_nth)

text \<open>The loop ends with the resolved dict when every segment it visits resolves.\<close>

lemma walk_ok:
  "i + n < length path \<Longrightarrow> resolve dict (take n (drop i path)) = Some d \<Longrightarrow>
   walk path dict (int i) n = Inr d"
proof (induction n arbitrary: i dict)
  case 0
  then show ?case by simp
next
  case (Suc n)
  from Suc.prems(1) have i: "i < length path" by simp
  then have dr: "drop i path = path ! i # drop (Suc i) path"
    by (simp add: Cons_nth_drop_Suc)
  from Suc.prems(2) dr obtain child where
    c: "DictChild dict (path ! i) = Some child" and
    r: "resolve (Some child) (take n (drop (Suc i) path)) = Some d"
    by (auto split: option.splits)
  have "walk path (Some child) (int (Suc i)) n = Inr d"
    using Suc.IH [of "Suc i" "Some child"] Suc.prems(1) r by simp
  then show ?case using i c by (simp add: index_ok add.commute)
qed

text \<open>The loop returns early at the first segment that does not resolve.\<close>

lemma walk_fail:
  "i + n < length path \<Longrightarrow> k < n \<Longrightarrow> resolve dict (take k (drop i path)) = Some d \<Longrightarrow>
   DictChild d (path ! (i + k)) = None \<Longrightarrow>
   walk path dict (int i) n =
     Inl (ErrorsNew (''cannot find: '' @ Join (take (Suc (i + k)) path) ''.''))"
proof (induction n arbitrary: i dict k)
  case 0
  then show ?case by simp
next
  case (Suc n)
  from Suc.prems(1) have i: "i < length path" by simp
  then have dr: "drop i path = path ! i # drop (Suc i) path"
    by (simp add: Cons_nth_drop_Suc)
  have sl: "slice_to path (int i + 1) = Inr (take (Suc i) path)"
    using slice_to_ok [of "Suc i" path] i by (simp add: add.commute)
  show ?case
  proof (cases k)
    case 0
    with Suc.prems(3,4) have "DictChild dict (path ! i) = None" by simp
    then show ?thesis using i sl 0 by (simp add: index_ok)
  next
    case (Suc k')
    from Suc.prems(3) dr Suc obtain child where
      c: "DictChild dict (path ! i) = Some child" and
      r: "resolve (Some child) (take k' (drop (Suc i) path)) = Some d"
      by (auto split: option.splits)
    have "walk path (Some child) (int (Suc i)) n =
          Inl (ErrorsNew (''cannot find: '' @ Join (take (Suc (Suc i + k')) path) ''.''))"
      using Suc.IH [of "Suc i" k' "Some child"] Suc.prems(1,2,4) r Suc by simp
    then show ?thesis using i c Suc by (simp add: index_ok add.commute)
  qed
qed

text \<open>No index or slice expression of the loop is out of range.\<close>

lemma walk_in_range:
  "i + n < length path \<Longrightarrow> walk path dict (int i) n \<noteq> Inl IndexOutOfRange"
proof (induction n arbitrary: i dict)
  case 0
  then show ?case by simp
next
  case (Suc n)
  from Suc.prems have i: "i < length path" by simp
  have sl: "slice_to path (int i + 1) = Inr (take (Suc i) path)"
    using slice_to_ok [of "Suc i" path] i by (simp add: add.commute)
  have "walk path dict' (int (Suc i)) n \<noteq> Inl IndexOutOfRange" for dict'
    using Suc.IH [of "Suc i" dict'] Suc.prems by simp
  then show ?case using i sl by (simp add: index_ok add.commute split: option.splits)
qed

lemma DictValue_nonempty:
  "path \<noteq> [] \<Longrightarrow> DictValue dict path =
     (case walk path dict 0 (length path - 1) of
        Inl e \<Rightarrow> Inl e
      | Inr dict' \<Rightarrow>
          (case lookup dict' (last path) of
             None \<Rightarrow> Inl (ErrorsNew (''cannot find: '' @ Join path ''.''))
           | Some v \<Rightarrow> Inr v))"
  by (simp add: DictValue_def final_slice final_index cong: sum.case_cong)

lemmas eval_defs =
  details_def roles_def features_def DictValue_def DictChild_def lookup_def slice_to_def index_def

text \<open>
  C3. When the first \<open>i\<close> segments of the path resolve, to \<open>d\<close>, and segment \<open>i\<close>, not the
  last one, has no child in \<open>d\<close>, \<^verbatim>\<open>DictValue\<close> returns the error whose message is
  \<^verbatim>\<open>cannot find: \<close> followed by the segments \<open>0, ..., i\<close> joined by dots. When all
  segments but the last resolve, to \<open>d\<close>, and the last one is not a key of \<open>d\<close>, it returns
  the error whose message names the whole path joined by dots.
\<close>

theorem DictValue_cannot_find:
  "(Suc i < length path \<and> resolve dict (take i path) = Some d \<and>
      DictChild d (path ! i) = None
      \<longrightarrow> DictValue dict path =
            Inl (ErrorsNew (''cannot find: '' @ Join (take (Suc i) path) ''.'')))
   \<and> (path \<noteq> [] \<and> resolve dict (butlast path) = Some d \<and> lookup d (last path) = None
      \<longrightarrow> DictValue dict path = Inl (ErrorsNew (''cannot find: '' @ Join path ''.'')))"
proof (intro conjI impI)
  assume a: "Suc i < length path \<and> resolve dict (take i path) = Some d \<and>
    DictChild d (path ! i) = None"
  then have ne: "path \<noteq> []" by auto
  have "walk path dict (int 0) (length path - 1) =
        Inl (ErrorsNew (''cannot find: '' @ Join (take (Suc (0 + i)) path) ''.''))"
    using a by (intro walk_fail [where d = d]) auto
  then show "DictValue dict path =
      Inl (ErrorsNew (''cannot find: '' @ Join (take (Suc i) path) ''.''))"
    using ne by (simp add: DictValue_nonempty)
next
  assume a: "path \<noteq> [] \<and> resolve dict (butlast path) = Some d \<and> lookup d (last path) = None"
  have "walk path dict (int 0) (length path - 1) = Inr d"
    using a by (intro walk_ok) (auto simp: butlast_conv_take)
  then show "DictValue dict path = Inl (ErrorsNew (''cannot find: '' @ Join path ''.''))"
    using a by (simp add: DictValue_nonempty)
qed

theorem DictValue_cannot_find_witness:
  "DictValue details [''roles'', ''publisher'', ''features''] =
     Inl (ErrorsNew ''cannot find: roles.publisher'') \<and>
   DictValue details [''roles'', ''caller''] = Inl (ErrorsNew ''cannot find: roles.caller'')"
proof -
  have h1: "Suc 1 < length [''roles'', ''publisher'', ''features''] \<and>
     resolve details (take 1 [''roles'', ''publisher'', ''features'']) = Some (Some roles) \<and>
     DictChild (Some roles) ([''roles'', ''publisher'', ''features''] ! 1) = None"
    by (simp add: eval_defs)
  have h2: "[''roles'', ''caller''] \<noteq> [] \<and>
     resolve details (butlast [''roles'', ''caller'']) = Some (Some roles) \<and>
     lookup (Some roles) (last [''roles'', ''caller'']) = None"
    by (simp add: eval_defs)
  show ?thesis
    using DictValue_cannot_find [of 1 "[''roles'', ''publisher'', ''features'']" details
        "Some roles", THEN conjunct1, rule_format, OF h1]
      DictValue_cannot_find [of 0 "[''roles'', ''caller'']" details
        "Some roles", THEN conjunct2, rule_format, OF h2]
    by simp
qed

text \<open>
  C4. When all segments of a non-empty path but the last resolve, to \<open>d\<close>, and the last
  segment is a key of \<open>d\<close> with value \<open>v\<close>, \<^verbatim>\<open>DictValue\<close> returns \<open>v\<close> and no error,
  whatever \<open>v\<close> is: a key whose value is nil is found, as the example shows.
\<close>

theorem DictValue_found:
  "path \<noteq> [] \<Longrightarrow> resolve dict (butlast path) = Some d \<Longrightarrow> lookup d (last path) = Some v \<Longrightarrow>
   DictValue dict path = Inr v"
proof -
  assume a: "path \<noteq> []" "resolve dict (butlast path) = Some d" "lookup d (last path) = Some v"
  have "walk path dict (int 0) (length path - 1) = Inr d"
    using a by (intro walk_ok) (auto simp: butlast_conv_take)
  then show ?thesis using a by (simp add: DictValue_nonempty)
qed

theorem DictValue_found_witness:
  "DictValue details [''roles'', ''callee'', ''features'', ''none''] = Inr VNil \<and>
   DictChild (Some features) ''none'' = None"
proof -
  have h1: "[''roles'', ''callee'', ''features'', ''none''] \<noteq> []" by simp
  have h2: "resolve details (butlast [''roles'', ''callee'', ''features'', ''none'']) =
      Some (Some features)"
    by (simp add: eval_defs)
  have h3: "lookup (Some features) (last [''roles'', ''callee'', ''features'', ''none'']) =
      Some VNil"
    by (simp add: eval_defs)
  have "DictChild (Some features) ''none'' = None"
    by (simp add: eval_defs)
  then show ?thesis using DictValue_found [OF h1 h2 h3] by simp
qed

text \<open>
  C7. \<^verbatim>\<open>DictFlag\<close> returns the error of \<^verbatim>\<open>DictValue\<close> as it is when the lookup fails;
  when the lookup gives a value that is not a \<^verbatim>\<open>bool\<close>, it returns the error whose
  message is the path joined by dots followed by \<^verbatim>\<open> is not a boolean type\<close>; when the
  lookup gives a \<^verbatim>\<open>bool\<close>, it returns that \<^verbatim>\<open>bool\<close> and no error.
\<close>

theorem DictFlag_cases:
  "(\<forall>err. DictValue dict path = Inl err \<longrightarrow> DictFlag dict path = Inl err) \<and>
   (\<forall>v. DictValue dict path = Inr v \<and> (\<forall>b. v \<noteq> VBool b) \<longrightarrow>
        DictFlag dict path = Inl (ErrorsNew (Join path ''.'' @ '' is not a boolean type''))) \<and>
   (\<forall>b. DictValue dict path = Inr (VBool b) \<longrightarrow> DictFlag dict path = Inr b)"
  by (auto simp: DictFlag_def split: val.splits)

theorem DictFlag_cases_witness:
  "DictFlag details [''roles'', ''callee'', ''features'', ''call_timeout''] = Inr True \<and>
   DictFlag details [''roles'', ''callee'', ''features'', ''progress''] =
     Inl (ErrorsNew ''roles.callee.features.progress is not a boolean type'') \<and>
   DictFlag details [''roles'', ''publisher'', ''features''] =
     Inl (ErrorsNew ''cannot find: roles.publisher'')"
proof -
  have h1: "DictValue details [''roles'', ''callee'', ''features'', ''call_timeout''] =
      Inr (VBool True)"
    by (simp add: eval_defs)
  have h2: "DictValue details [''roles'', ''callee'', ''features'', ''progress''] =
      Inr (VString ''yes'') \<and> (\<forall>b. VString ''yes'' \<noteq> VBool b)"
    by (simp add: eval_defs)
  have h3: "DictValue details [''roles'', ''publisher'', ''features''] =
      Inl (ErrorsNew ''cannot find: roles.publisher'')"
    by (simp add: eval_defs)
  show ?thesis
    using DictFlag_cases [of details "[''roles'', ''callee'', ''features'', ''call_timeout'']",
        THEN conjunct2, THEN conjunct2, rule_format, OF h1]
      DictFlag_cases [of details "[''roles'', ''callee'', ''features'', ''progress'']",
        THEN conjunct2, THEN conjunct1, rule_format, OF h2]
      DictFlag_cases [of details "[''roles'', ''publisher'', ''features'']",
        THEN conjunct1, rule_format, OF h3]
    by simp
qed

text \<open>
  C9. For a path of at least one segment the slice \<^verbatim>\<open>path[:len(path)-1]\<close> and the index
  \<^verbatim>\<open>path[len(path)-1]\<close> are in range, they are all segments but the last and the last
  segment, and \<^verbatim>\<open>DictValue\<close>, the index and slice expressions of its loop included,
  never ends out of range: it returns a value or an error made by \<^verbatim>\<open>errors.New\<close>.
\<close>

theorem DictValue_in_range:
  "path \<noteq> [] \<Longrightarrow>
     slice_to path (int (length path) - 1) = Inr (butlast path) \<and>
     index path (int (length path) - 1) = Inr (last path) \<and>
     DictValue dict path \<noteq> Inl IndexOutOfRange \<and>
     ((\<exists>v. DictValue dict path = Inr v) \<or> (\<exists>msg. DictValue dict path = Inl (ErrorsNew msg)))"
proof -
  assume ne: "path \<noteq> []"
  have "walk path dict (int 0) (length path - 1) \<noteq> Inl IndexOutOfRange"
    using ne by (intro walk_in_range) simp
  then have *: "DictValue dict path \<noteq> Inl IndexOutOfRange"
    using ne by (auto simp: DictValue_nonempty split: sum.splits option.splits)
  have "(\<exists>v. DictValue dict path = Inr v) \<or> (\<exists>msg. DictValue dict path = Inl (ErrorsNew msg))"
  proof (cases "DictValue dict path")
    case (Inl e)
    with * show ?thesis by (cases e) simp_all
  next
    case (Inr v)
    then show ?thesis by simp
  qed
  with * show ?thesis using ne by (simp add: final_slice final_index)
qed

theorem DictValue_in_range_witness:
  "[''roles'', ''callee''] \<noteq> [] \<and>
   slice_to [''roles'', ''callee''] (int (length [''roles'', ''callee'']) - 1) = Inr [''roles''] \<and>
   index [''roles'', ''callee''] (int (length [''roles'', ''callee'']) - 1) = Inr ''callee'' \<and>
   DictValue details [''roles'', ''callee''] \<noteq> Inl IndexOutOfRange"
proof -
  have h: "[''roles'', ''callee''] \<noteq> []" by simp
  show ?thesis using DictValue_in_range [OF h, of details] by simp
qed

text \<open>
  C10. Reading a nil dict is reading an empty one: \<^verbatim>\<open>DictChild\<close> of a nil dict is nil for
  every key; \<^verbatim>\<open>DictValue\<close> of a nil dict and a non-empty path returns the error
  \<^verbatim>\<open>cannot find: \<close> followed by the first segment; \<^verbatim>\<open>OptionString\<close>, \<^verbatim>\<open>OptionInt64\<close> and
  \<^verbatim>\<open>OptionFlag\<close> of a nil dict return the empty string, 0 and false.
\<close>

theorem nil_dict_reads:
  "path \<noteq> [] \<Longrightarrow>
     DictChild None key = None \<and>
     DictValue None path = Inl (ErrorsNew (''cannot find: '' @ hd path)) \<and>
     OptionString None name = [] \<and>
     OptionInt64 None name = 0 \<and>
     OptionFlag None name = False"
proof -
  assume ne: "path \<noteq> []"
  have child: "DictChild None k = None" for k
    by (simp add: DictChild_def lookup_def)
  have "DictValue None path = Inl (ErrorsNew (''cannot find: '' @ hd path))"
  proof (cases "length path = 1")
    case True
    then obtain x where "path = [x]" by (cases path) auto
    then show ?thesis by (simp add: DictValue_nonempty lookup_def)
  next
    case False
    with ne obtain x y ys where p: "path = x # y # ys"
      by (cases path; cases "tl path") auto
    then show ?thesis
      by (simp add: DictValue_nonempty index_def slice_to_def child)
  qed
  then show ?thesis
    by (simp add: child OptionString_def OptionInt64_def OptionFlag_def lookup_def)
qed

theorem nil_dict_reads_witness:
  "[''roles'', ''callee''] \<noteq> [] \<and>
   DictChild None ''roles'' = None \<and>
   DictValue None [''roles'', ''callee''] = Inl (ErrorsNew ''cannot find: roles'') \<and>
   OptionString None ''x'' = [] \<and> OptionInt64 None ''x'' = 0 \<and> OptionFlag None ''x'' = False"
proof -
  have h: "[''roles'', ''callee''] \<noteq> []" by simp
  show ?thesis using nil_dict_reads [OF h, of "''roles''" "''x''"] by simp
qed

section \<open>The normalizer\<close>

text \<open>
  The defining equations with the loop as the source has it: the recursive call is made
  in the body, for the keys that are strings.
\<close>

lemma NormalizeDict_VDict: "NormalizeDict (VDict m) = Some (\<lambda>key. map_option stored (m key))"
  by (simp add: stored_def [abs_def])

lemma NormalizeDict_VMap:
  "NormalizeDict (VMap es) =
     Some (fold (\<lambda>(key, cv) dict.
             case unwrap key of KString s \<Rightarrow> dict(s \<mapsto> stored cv) | KOther k \<Rightarrow> dict)
           es Map.empty)"
proof -
  have "fold store_entry (map (map_prod id stored) es) d =
        fold (\<lambda>(key, cv) dict.
             case unwrap key of KString s \<Rightarrow> dict(s \<mapsto> stored cv) | KOther k \<Rightarrow> dict) es d" for d
    by (induction es arbitrary: d) (auto simp: store_entry_def split: keyval.splits)
  then show ?thesis by (simp add: stored_def [abs_def])
qed

lemma is_map_iff: "NormalizeDict v = None \<longleftrightarrow> \<not> is_map v"
  by (cases v) simp_all

lemma string_entries_Nil: "string_entries [] = []"
  by (simp add: string_entries_def List.map_filter_simps)

lemma string_entries_Cons:
  "string_entries ((k, cv) # es) =
     (case string_key k of None \<Rightarrow> string_entries es
      | Some s \<Rightarrow> (s, stored cv) # string_entries es)"
  by (simp add: string_entries_def List.map_filter_simps split: option.splits)

lemma unwrap_string_key:
  "unwrap k = (case string_key k of Some s \<Rightarrow> KString s | None \<Rightarrow> unwrap k)"
  "string_key k = None \<Longrightarrow> \<exists>n. unwrap k = KOther n"
  by (cases k rule: string_key.cases; simp)+

lemma fold_entries:
  "fold (\<lambda>(key, cv) dict.
             case unwrap key of KString s \<Rightarrow> dict(s \<mapsto> stored cv) | KOther k \<Rightarrow> dict) es d
   = d ++ map_of (rev (string_entries es))"
proof (induction es arbitrary: d)
  case Nil
  then show ?case by (simp add: string_entries_Nil)
next
  case (Cons e es)
  let ?F = "\<lambda>(key, cv) dict.
             case unwrap key of KString s \<Rightarrow> dict(s \<mapsto> stored cv) | KOther k \<Rightarrow> dict"
  obtain k cv where e: "e = (k, cv)" by (cases e)
  show ?case
  proof (cases "string_key k")
    case None
    then obtain n where "unwrap k = KOther n" using unwrap_string_key(2) by blast
    then have "fold ?F (e # es) d = fold ?F es d" by (simp add: e)
    also have "\<dots> = d ++ map_of (rev (string_entries es))" by (rule Cons.IH)
    finally show ?thesis by (simp add: e string_entries_Cons None)
  next
    case (Some s)
    then have "unwrap k = KString s" using unwrap_string_key(1) [of k] by simp
    then have "fold ?F (e # es) d = fold ?F es (d(s \<mapsto> stored cv))" by (simp add: e)
    also have "\<dots> = d(s \<mapsto> stored cv) ++ map_of (rev (string_entries es))" by (rule Cons.IH)
    also have "\<dots> = d ++ map_of (rev (string_entries (e # es)))"
      by (rule ext) (simp add: e string_entries_Cons Some map_add_def split: option.splits)
    finally show ?thesis .
  qed
qed

lemma NormalizeDict_VMap_entries:
  "NormalizeDict (VMap es) = Some (map_of (rev (string_entries es)))"
  by (simp only: NormalizeDict_VMap fold_entries empty_map_add)

text \<open>
  The loop over a \<^verbatim>\<open>map[string]interface{}\<close>: whatever the order in which the keys of the
  map come, the loop of the source, run on its entries, gives the dict of the defining
  equation for \<open>VDict\<close>.
\<close>

lemma map_of_rev_distinct:
  assumes "distinct (map fst xs)"
  shows "map_of (rev xs) = map_of xs"
proof -
  have "distinct (map fst (rev xs))" using assms by (metis distinct_rev rev_map)
  then show ?thesis using assms by (simp add: map_of_inject_set)
qed

lemma string_entries_direct:
  "string_entries (map (\<lambda>(k, cv). (Direct (KString k), cv)) kvs) =
     map (\<lambda>(k, cv). (k, stored cv)) kvs"
  by (induction kvs) (auto simp: string_entries_Nil string_entries_Cons)

lemma NormalizeDict_VDict_loop:
  assumes "distinct (map fst kvs)"
  shows "NormalizeDict (VDict (map_of kvs)) =
         NormalizeDict (VMap (map (\<lambda>(k, cv). (Direct (KString k), cv)) kvs))"
proof -
  let ?xs = "map (\<lambda>(k, cv). (k, stored cv)) kvs"
  have "map fst ?xs = map fst kvs" by (induction kvs) auto
  with assms have "distinct (map fst ?xs)" by (simp only:)
  then have "map_of (rev ?xs) = map_of ?xs" by (rule map_of_rev_distinct)
  also have "\<dots> = (\<lambda>key. map_option stored (map_of kvs key))"
    by (rule ext) (simp add: map_of_map)
  finally show ?thesis
    by (simp only: NormalizeDict_VDict NormalizeDict_VMap_entries string_entries_direct)
qed

lemma string_entries_values:
  "(s, x) \<in> set (string_entries es) \<longleftrightarrow> (\<exists>e\<in>set es. string_key (fst e) = Some s \<and> x = stored (snd e))"
  by (induction es) (auto simp: string_entries_Nil string_entries_Cons split: option.splits)

lemma string_entries_keys:
  "fst ` set (string_entries es) = {s. \<exists>e\<in>set es. string_key (fst e) = Some s}"
proof -
  have "s \<in> fst ` set (string_entries es) \<longleftrightarrow> (\<exists>e\<in>set es. string_key (fst e) = Some s)" for s
  proof -
    have "s \<in> fst ` set (string_entries es) \<longleftrightarrow> (\<exists>x. (s, x) \<in> set (string_entries es))"
      by force
    then show ?thesis by (simp add: string_entries_values) blast
  qed
  then show ?thesis by blast
qed

lemma stored_not_map: "\<not> is_map v \<Longrightarrow> stored v = v"
  by (simp add: stored_def is_map_iff [symmetric])

lemma stored_map: "is_map v \<Longrightarrow> stored v = box (NormalizeDict v)"
  by (cases v) (simp_all add: stored_def box_def)

lemma stored_VDict: "stored (VDict m) = VDict (\<lambda>key. map_option stored (m key))"
  unfolding stored_def [of "VDict m"] NormalizeDict_VDict by simp

lemma stored_VMap: "stored (VMap es) = VDict (map_of (rev (string_entries es)))"
  unfolding stored_def [of "VMap es"] NormalizeDict_VMap_entries by simp

lemma stored_idem: "stored (stored v) = stored v"
proof (induction v)
  case (VDict m)
  have "map_option stored (map_option stored (m k)) = map_option stored (m k)" for k
  proof (cases "m k")
    case None
    then show ?thesis by simp
  next
    case (Some x)
    have "stored (stored x) = stored x"
    proof (rule VDict [of "m k"])
      show "m k \<in> range m" by (rule rangeI)
      show "x \<in> set_option (m k)" by (simp add: Some)
    qed
    then show ?thesis using Some by simp
  qed
  then show ?case by (simp only: stored_VDict)
next
  case (VMap es)
  let ?d = "map_of (rev (string_entries es))"
  have "map_option stored (?d k) = ?d k" for k
  proof (cases "?d k")
    case None
    then show ?thesis by simp
  next
    case (Some x)
    then have "(k, x) \<in> set (string_entries es)" by (auto dest: map_of_SomeD)
    then obtain e where e: "e \<in> set es" "x = stored (snd e)"
      by (auto simp: string_entries_values)
    have "stored (stored (snd e)) = stored (snd e)"
    proof (rule VMap [of e])
      show "e \<in> set es" by (rule e(1))
      show "snd e \<in> Basic_BNFs.snds e" by (cases e) simp
    qed
    then show ?thesis using Some e by simp
  qed
  then show ?case by (simp only: stored_VMap stored_VDict)
qed (simp_all add: stored_def)

text \<open>
  C5, amended. \<^verbatim>\<open>NormalizeDict\<close> returns nil exactly for the values that are not of kind
  \<^verbatim>\<open>Map\<close>. A nil map and an empty map of either sort give the empty dict, not nil. A
  \<^verbatim>\<open>map[string]interface{}\<close> keeps all its keys. For a map of any other type the result
  \<open>d\<close> is the dict of the entries whose keys are strings, boxed or not: the keys of \<open>d\<close> are
  exactly the texts of the string keys of the input, so an entry with any other key is
  dropped; every entry of \<open>d\<close> is an entry of the input with a string key, its value
  stored as the loop stores it; and every such entry of the input is in \<open>d\<close> when no two
  string keys have the same text. Where two have the same text, \<open>d\<close> has one entry for
  them, that of the key iterated last.
\<close>

theorem NormalizeDict_result:
  "(NormalizeDict v = None \<longleftrightarrow> \<not> is_map v) \<and>
   NormalizeDict VNilDict = Some Map.empty \<and>
   NormalizeDict (VDict Map.empty) = Some Map.empty \<and>
   NormalizeDict (VMap []) = Some Map.empty \<and>
   NormalizeDict (VDict m) = Some (\<lambda>key. map_option stored (m key)) \<and>
   (\<exists>d. NormalizeDict (VMap es) = Some d \<and>
      d = map_of (rev (string_entries es)) \<and>
      dom d = {s. \<exists>e\<in>set es. string_key (fst e) = Some s} \<and>
      (\<forall>s x. d s = Some x \<longrightarrow> (\<exists>e\<in>set es. string_key (fst e) = Some s \<and> x = stored (snd e))) \<and>
      (distinct (map fst (string_entries es)) \<longrightarrow>
         (\<forall>e\<in>set es. \<forall>s. string_key (fst e) = Some s \<longrightarrow> d s = Some (stored (snd e)))))"
proof -
  let ?d = "map_of (rev (string_entries es))"
  have dom: "dom ?d = {s. \<exists>e\<in>set es. string_key (fst e) = Some s}"
    by (simp add: dom_map_of_conv_image_fst string_entries_keys)
  have from_entry: "\<exists>e\<in>set es. string_key (fst e) = Some s \<and> x = stored (snd e)"
    if "?d s = Some x" for s x
  proof -
    from that have "(s, x) \<in> set (string_entries es)" by (auto dest: map_of_SomeD)
    then show ?thesis by (simp add: string_entries_values)
  qed
  have all_entries: "?d s = Some (stored (snd e))"
    if "distinct (map fst (string_entries es))" "e \<in> set es" "string_key (fst e) = Some s" for e s
  proof -
    from that(2,3) have "(s, stored (snd e)) \<in> set (string_entries es)"
      by (auto simp: string_entries_values)
    then have "map_of (string_entries es) s = Some (stored (snd e))"
      using that(1) by (rule map_of_is_SomeI [rotated])
    then show ?thesis using that(1) by (simp add: map_of_rev_distinct)
  qed
  have "NormalizeDict (VMap es) = Some ?d" by (rule NormalizeDict_VMap_entries)
  with dom from_entry all_entries
  have "\<exists>d. NormalizeDict (VMap es) = Some d \<and>
      d = map_of (rev (string_entries es)) \<and>
      dom d = {s. \<exists>e\<in>set es. string_key (fst e) = Some s} \<and>
      (\<forall>s x. d s = Some x \<longrightarrow> (\<exists>e\<in>set es. string_key (fst e) = Some s \<and> x = stored (snd e))) \<and>
      (distinct (map fst (string_entries es)) \<longrightarrow>
         (\<forall>e\<in>set es. \<forall>s. string_key (fst e) = Some s \<longrightarrow> d s = Some (stored (snd e))))"
    by blast
  then show ?thesis
    by (simp only: is_map_iff NormalizeDict_VDict) (simp add: string_entries_Nil)
qed


lemma NormalizeDict_foreign:
  "NormalizeDict foreign =
     Some [''a'' \<mapsto> VDict [''b'' \<mapsto> VInt 1], ''c'' \<mapsto> VString ''x'']"
  by (simp add: foreign_def entries_def store_entry_def)

theorem NormalizeDict_result_witness:
  "NormalizeDict (VInt 42) = None \<and> NormalizeDict (VString ''abc'') = None \<and>
   (\<exists>d. NormalizeDict (VMap entries) = Some d \<and> dom d = {''a'', ''c''} \<and>
      d ''a'' = Some (VDict [''b'' \<mapsto> VInt 1]) \<and> d ''c'' = Some (VString ''x''))"
proof -
  have n: "\<not> is_map (VInt 42)" "\<not> is_map (VString ''abc'')" by simp_all
  have se: "string_entries entries =
      [(''a'', VDict [''b'' \<mapsto> VInt 1]), (''c'', VString ''x'')]"
    by (simp add: entries_def string_entries_def List.map_filter_simps stored_def store_entry_def)
  have h: "distinct (map fst (string_entries entries))" by (simp add: se)
  have keys: "{s. \<exists>e\<in>set entries. string_key (fst e) = Some s} = {''a'', ''c''}"
    by (auto simp: entries_def)
  from NormalizeDict_result [of "VInt 42" Map.empty entries, THEN conjunct2, THEN conjunct2, THEN conjunct2,
      THEN conjunct2, THEN conjunct2]
  obtain d where d: "NormalizeDict (VMap entries) = Some d"
    "dom d = {s. \<exists>e\<in>set entries. string_key (fst e) = Some s}"
    "distinct (map fst (string_entries entries)) \<longrightarrow>
       (\<forall>e\<in>set entries. \<forall>s. string_key (fst e) = Some s \<longrightarrow> d s = Some (stored (snd e)))"
    by blast
  from d(3) h have all: "\<forall>e\<in>set entries. \<forall>s. string_key (fst e) = Some s \<longrightarrow> d s = Some (stored (snd e))"
    by simp
  have "d ''a'' = Some (VDict [''b'' \<mapsto> VInt 1])" "d ''c'' = Some (VString ''x'')"
    using all by (simp_all add: entries_def stored_def store_entry_def)
  with d(1,2) keys n show ?thesis
    using NormalizeDict_result [of "VInt 42", THEN conjunct1] NormalizeDict_result [of "VString ''abc''", THEN conjunct1]
    by simp
qed

text \<open>
  Without the condition on the texts the property fails: of the two entries of
  \<open>collide\<close>, both with a string key, the result has the second only.
\<close>

theorem NormalizeDict_drops_entry:
  "string_key (fst (collide ! 0)) = Some ''a'' \<and> snd (collide ! 0) = VInt 1 \<and>
   NormalizeDict (VMap collide) = Some [''a'' \<mapsto> VInt 2] \<and>
   [''a'' \<mapsto> VInt 2] ''a'' \<noteq> Some (VInt 1)"
  by (simp add: collide_def store_entry_def)

text \<open>
  C2. Normalizing is idempotent: for a value \<open>x\<close> of kind \<^verbatim>\<open>Map\<close>, normalizing the dict
  that \<^verbatim>\<open>NormalizeDict(x)\<close> returns gives a dict equal to it (the same keys with the same
  values; dicts are maps, so the order of keys plays no part). And normalizing a
  \<^verbatim>\<open>map[string]interface{}\<close> gives a dict with the same keys in which a value that is not
  a map is unchanged and a value that is a map is normalized.
\<close>

theorem NormalizeDict_idempotent:
  "(is_map x \<longrightarrow> NormalizeDict (box (NormalizeDict x)) = NormalizeDict x) \<and>
   NormalizeDict (VDict m) =
     Some (\<lambda>key. map_option (\<lambda>v. if is_map v then box (NormalizeDict v) else v) (m key))"
proof (intro conjI impI)
  assume "is_map x"
  then obtain d where d: "NormalizeDict x = Some d" and s: "stored x = VDict d"
    by (cases x) (auto simp: stored_def)
  have "stored (VDict d) = VDict d" using stored_idem [of x] s by simp
  then have "NormalizeDict (VDict d) = Some d"
    by (simp add: stored_def NormalizeDict_VDict)
  then show "NormalizeDict (box (NormalizeDict x)) = NormalizeDict x"
    by (simp add: d box_def)
next
  have "stored v = (if is_map v then box (NormalizeDict v) else v)" for v
    by (simp add: stored_map stored_not_map)
  then show "NormalizeDict (VDict m) =
     Some (\<lambda>key. map_option (\<lambda>v. if is_map v then box (NormalizeDict v) else v) (m key))"
    unfolding NormalizeDict_VDict by presburger
qed

theorem NormalizeDict_idempotent_witness:
  "is_map foreign \<and>
   NormalizeDict foreign =
     Some [''a'' \<mapsto> VDict [''b'' \<mapsto> VInt 1], ''c'' \<mapsto> VString ''x''] \<and>
   NormalizeDict (VDict [''a'' \<mapsto> VDict [''b'' \<mapsto> VInt 1], ''c'' \<mapsto> VString ''x'']) =
     Some [''a'' \<mapsto> VDict [''b'' \<mapsto> VInt 1], ''c'' \<mapsto> VString ''x'']"
proof -
  have h: "is_map foreign" by (simp add: foreign_def entries_def)
  show ?thesis
    using NormalizeDict_idempotent [of foreign, THEN conjunct1, rule_format, OF h] h
    by (simp only: NormalizeDict_foreign box_def option.case)
qed

section \<open>The child resolver\<close>

text \<open>
  \<^verbatim>\<open>DictChild\<close> on the contents of \<open>dict\<close>, by the value stored at the key.
\<close>

lemma DictChild_cases:
  "(DictChild dict key = None \<longleftrightarrow>
      lookup dict key = None \<or> lookup dict key = Some VNil \<or>
      lookup dict key = Some VNilDict \<or>
      (\<exists>v. lookup dict key = Some v \<and> \<not> is_map v)) \<and>
   (\<forall>child. lookup dict key = Some (VDict child) \<longrightarrow> DictChild dict key = Some child) \<and>
   (\<forall>v. lookup dict key = Some v \<and> v \<noteq> VNil \<and> v \<noteq> VNilDict \<and>
        (\<forall>child. v \<noteq> VDict child) \<longrightarrow>
      DictChild dict key = NormalizeDict v)"
proof (cases "lookup dict key")
  case None
  then show ?thesis by (simp add: DictChild_def)
next
  case (Some v)
  then show ?thesis by (cases v) (simp_all add: DictChild_def)
qed

lemma DictChild_session:
  "DictChild session ''absent'' = None \<and>
   DictChild session ''none'' = None \<and>
   DictChild session ''nildict'' = None \<and>
   DictChild session ''count'' = None \<and>
   DictChild session ''features'' = Some features \<and>
   DictChild session ''foreign'' =
     Some [''a'' \<mapsto> VDict [''b'' \<mapsto> VInt 1], ''c'' \<mapsto> VString ''x'']"
proof -
  have h1: "lookup session ''absent'' = None" "lookup session ''none'' = Some VNil"
    "lookup session ''nildict'' = Some VNilDict"
    "\<exists>v. lookup session ''count'' = Some v \<and> \<not> is_map v"
    by (simp_all add: session_def lookup_def)
  have h2: "lookup session ''features'' = Some (VDict features)"
    by (simp add: session_def lookup_def)
  have h3: "lookup session ''foreign'' = Some foreign \<and> foreign \<noteq> VNil \<and>
      foreign \<noteq> VNilDict \<and> (\<forall>child. foreign \<noteq> VDict child)"
    by (simp add: session_def lookup_def foreign_def entries_def)
  show ?thesis
    using DictChild_cases [of session "''absent''", THEN conjunct1]
      DictChild_cases [of session "''none''", THEN conjunct1]
      DictChild_cases [of session "''nildict''", THEN conjunct1]
      DictChild_cases [of session "''count''", THEN conjunct1]
      DictChild_cases [of session "''features''", THEN conjunct2, THEN conjunct1,
        rule_format, OF h2]
      DictChild_cases [of session "''foreign''", THEN conjunct2, THEN conjunct2,
        rule_format, OF h3]
      h1
    by (simp only: NormalizeDict_foreign) simp
qed

text \<open>
  On the heap: a call of \<^verbatim>\<open>NormalizeDict\<close> that returns leaves every object that the
  heap had as it was, it returns nil for a value that is not a map and the new object
  otherwise, and it returns for every value that is a finite tree.
\<close>

lemma take_extends_length:
  assumes "take (length h) h' = h"
  shows "length h \<le> length h'"
proof -
  have "length (take (length h) h') = length h" using assms by simp
  then show ?thesis by simp
qed

lemma take_extends_nth: "take (length h) h' = h \<Longrightarrow> a < length h \<Longrightarrow> h' ! a = h ! a"
  by (metis nth_take)

lemma take_extends_trans:
  "take (length h) h1 = h \<Longrightarrow> take (length h1) h2 = h1 \<Longrightarrow> take (length h) h2 = h"
  by (metis take_extends_length take_take min.absorb1 min.commute)

lemma take_set_key: "k \<le> dict \<Longrightarrow> take k (set_key h dict s v) = take k h"
  by (simp add: set_key_def)

lemma length_set_key: "length (set_key h dict s v) = length h"
  by (simp add: set_key_def)

lemma norm_loop_frame:
  assumes N: "\<And>h v r h'. N h v = Some (r, h') \<Longrightarrow> take (length h) h' = h"
  shows "norm_loop N es dict hc = Some h' \<Longrightarrow> k \<le> dict \<Longrightarrow> k \<le> length hc \<Longrightarrow>
         take k h' = take k hc \<and> length hc \<le> length h'"
proof (induction es arbitrary: hc)
  case Nil
  then show ?case by simp
next
  case (Cons e es)
  obtain key cv where e: "e = (key, cv)" by (cases e)
  show ?case
  proof (cases "unwrap key")
    case (KOther x)
    with Cons e show ?thesis by simp
  next
    case (KString s)
    with Cons.prems(1) e obtain newVal h1 where n: "N hc cv = Some (newVal, h1)"
      by (auto split: option.splits)
    let ?v = "case newVal of None \<Rightarrow> cv | Some d \<Rightarrow> RDict (Some d)"
    from Cons.prems(1) e KString n have loop: "norm_loop N es dict (set_key h1 dict s ?v) = Some h'"
      by (auto split: option.splits)
    from N [OF n] have fr: "take (length hc) h1 = hc" .
    then have len: "length hc \<le> length h1" by (rule take_extends_length)
    have "take k h1 = take k hc"
      using fr Cons.prems(3) by (metis min.absorb1 take_take)
    moreover have "take k h' = take k (set_key h1 dict s ?v) \<and>
        length (set_key h1 dict s ?v) \<le> length h'"
      using Cons.IH [OF loop Cons.prems(2)] Cons.prems(3) len by (simp add: length_set_key)
    ultimately show ?thesis using Cons.prems(2) len by (simp add: take_set_key length_set_key)
  qed
qed

lemma NormalizeDict_heap_frame:
  "NormalizeDict_heap n h v = Some (r, h') \<Longrightarrow> take (length h) h' = h"
proof (induction n arbitrary: h v r h')
  case 0
  then show ?case by (cases v) simp_all
next
  case (Suc n)
  have map: "take (length h) h' = h" if "norm_map (NormalizeDict_heap n) es h = Some (r, h')" for es
  proof -
    from that have "norm_loop (NormalizeDict_heap n) es (length h) (h @ [[]]) = Some h'"
      by (auto simp: norm_map_def new_dict_def split: option.splits)
    then have "take (length h) h' = take (length h) (h @ [[]])"
      using norm_loop_frame [where N = "NormalizeDict_heap n" and k = "length h"] Suc.IH
      by simp
    then show ?thesis by simp
  qed
  show ?case using Suc.prems map by (cases v) auto
qed

lemma NormalizeDict_heap_ref:
  "NormalizeDict_heap n h v = Some (r, h') \<Longrightarrow>
     (case v of RNil \<Rightarrow> r = None | ROther k \<Rightarrow> r = None | _ \<Rightarrow> r = Some (length h))"
  by (cases n; cases v)
     (auto simp: norm_map_def new_dict_def split: option.splits)

lemma bounded_extends:
  "bounded n h v \<Longrightarrow> take (length h) h' = h \<Longrightarrow> bounded n h' v"
proof (induction n arbitrary: v)
  case 0
  then show ?case by (cases v) simp_all
next
  case (Suc n)
  have *: "a < length h' \<and> list_all (\<lambda>e. bounded n h' (snd e)) (h' ! a)"
    if "a < length h" "list_all (\<lambda>e. bounded n h (snd e)) (h ! a)" for a
  proof -
    have "h' ! a = h ! a" using Suc.prems(2) that(1) by (rule take_extends_nth)
    moreover have "a < length h'" using take_extends_length [OF Suc.prems(2)] that(1) by simp
    ultimately show ?thesis using that(2) Suc.IH Suc.prems(2) by (auto simp: list_all_iff)
  qed
  show ?case using Suc.prems(1) * by (cases v) (auto split: option.splits)
qed

lemma norm_loop_returns:
  assumes ret: "\<And>h v. bounded n h v \<Longrightarrow> \<exists>r h'. N h v = Some (r, h')"
    and N: "\<And>h v r h'. N h v = Some (r, h') \<Longrightarrow> take (length h) h' = h"
  shows "list_all (\<lambda>e. bounded n h0 (snd e)) es \<Longrightarrow> take (length h0) hc = h0 \<Longrightarrow>
         length h0 \<le> dict \<Longrightarrow> \<exists>h'. norm_loop N es dict hc = Some h'"
proof (induction es arbitrary: hc)
  case Nil
  then show ?case by simp
next
  case (Cons e es)
  obtain key cv where e: "e = (key, cv)" by (cases e)
  from Cons.prems(1) e have cv: "bounded n h0 cv" and rest: "list_all (\<lambda>e. bounded n h0 (snd e)) es"
    by simp_all
  show ?case
  proof (cases "unwrap key")
    case (KOther x)
    with Cons.IH [OF rest Cons.prems(2,3)] e show ?thesis by simp
  next
    case (KString s)
    have "bounded n hc cv" using cv Cons.prems(2) by (rule bounded_extends)
    then obtain newVal h1 where n: "N hc cv = Some (newVal, h1)" using ret by blast
    let ?v = "case newVal of None \<Rightarrow> cv | Some d \<Rightarrow> RDict (Some d)"
    have "take (length h0) h1 = h0"
      using Cons.prems(2) N [OF n] by (rule take_extends_trans)
    then have "take (length h0) (set_key h1 dict s ?v) = h0"
      using Cons.prems(3) by (simp add: take_set_key)
    from Cons.IH [OF rest this Cons.prems(3)] obtain h' where
      "norm_loop N es dict (set_key h1 dict s ?v) = Some h'" by blast
    then show ?thesis using e KString n by (auto split: option.splits)
  qed
qed

lemma NormalizeDict_heap_returns:
  "bounded n h v \<Longrightarrow> \<exists>r h'. NormalizeDict_heap n h v = Some (r, h')"
proof (induction n arbitrary: h v)
  case 0
  then show ?case by (cases v) simp_all
next
  case (Suc n)
  have map: "\<exists>r' h'. norm_map (NormalizeDict_heap n) (entries_of h r) h = Some (r', h')"
    if "case r of None \<Rightarrow> True
        | Some a \<Rightarrow> a < length h \<and> list_all (\<lambda>e. bounded n h (snd e)) (h ! a)" for r
  proof -
    from that have "list_all (\<lambda>e. bounded n h (snd e)) (entries_of h r)"
      by (auto simp: entries_of_def split: option.splits)
    then have "\<exists>h'. norm_loop (NormalizeDict_heap n) (entries_of h r) (length h) (h @ [[]]) = Some h'"
      using Suc.IH NormalizeDict_heap_frame
      by (intro norm_loop_returns [where n = n and ?h0.0 = h]) auto
    then obtain h2 where
      "norm_loop (NormalizeDict_heap n) (entries_of h r) (length h) (h @ [[]]) = Some h2"
      by blast
    then show ?thesis by (simp add: norm_map_def new_dict_def)
  qed
  show ?case using Suc.prems map by (cases v) auto
qed

text \<open>
  The two embeddings agree. On a heap whose values are trees, a call of
  \<^verbatim>\<open>NormalizeDict\<close> that returns gives a tree again, and the contents of the dict it
  returns are what \<open>NormalizeDict\<close> gives for the contents of its argument; likewise for
  \<^verbatim>\<open>DictChild\<close>. The proof follows the loop: the values set in the new dict reach neither
  the new dict nor an object written later, so they read the same when the loop ends.
\<close>

lemma tree_bounded: "tree X n h v \<Longrightarrow> bounded n h v"
proof (induction n arbitrary: v)
  case 0
  then show ?case by (cases v) simp_all
next
  case (Suc n)
  then show ?case by (cases v) (auto simp: list_all_iff split: option.splits)
qed

lemma tree_mono: "tree Y n h v \<Longrightarrow> X \<subseteq> Y \<Longrightarrow> tree X n h v"
proof (induction n arbitrary: v)
  case 0
  then show ?case by (cases v) simp_all
next
  case (Suc n)
  then show ?case by (cases v) (auto simp: list_all_iff split: option.splits)
qed

lemma tree_insert: "tree X n h v \<Longrightarrow> length h \<le> a \<Longrightarrow> tree (insert a X) n h v"
proof (induction n arbitrary: v)
  case 0
  then show ?case by (cases v) simp_all
next
  case (Suc n)
  then show ?case by (cases v) (auto simp: list_all_iff split: option.splits)
qed

lemma stable:
  "tree X n h v \<Longrightarrow> a \<in> X \<Longrightarrow> agree a h h' \<Longrightarrow> tree X n h' v \<and> view n h' v = view n h v"
proof (induction n arbitrary: v)
  case 0
  then show ?case by (cases v) simp_all
next
  case (Suc n)
  have obj: "h' ! b = h ! b \<and> b < length h'" if "b \<notin> X" "b < length h" for b
    using that Suc.prems(2,3) by (auto simp: agree_def)
  have ih: "tree X n h' x \<and> view n h' x = view n h x" if "tree X n h x" for x
    using Suc.IH [OF that Suc.prems(2,3)] .
  show ?case
  proof (cases v)
    case (RDict r)
    show ?thesis
    proof (cases r)
      case None
      with RDict show ?thesis by simp
    next
      case (Some b)
      with RDict Suc.prems(1) have b: "b \<notin> X" "b < length h"
        and es: "list_all (\<lambda>e. tree X n h (snd e)) (h ! b)"
        by simp_all
      have "map_option (view n h') (map_of (h ! b) k) = map_option (view n h) (map_of (h ! b) k)" for k
      proof (cases "map_of (h ! b) k")
        case None
        then show ?thesis by simp
      next
        case (Some x)
        then have "(k, x) \<in> set (h ! b)" by (rule map_of_SomeD)
        with es have "tree X n h x" by (auto simp: list_all_iff)
        with ih Some show ?thesis by simp
      qed
      then show ?thesis
        using RDict Some Suc.prems(1) obj [OF b] es ih by (auto simp: list_all_iff)
    qed
  next
    case (RMap r)
    show ?thesis
    proof (cases r)
      case None
      with RMap show ?thesis by (simp add: entries_of_def)
    next
      case (Some b)
      with RMap Suc.prems(1) have b: "b \<notin> X" "b < length h"
        and es: "list_all (\<lambda>e. tree X n h (snd e)) (h ! b)"
        by simp_all
      then show ?thesis
        using RMap Some obj [OF b] ih by (auto simp: list_all_iff entries_of_def)
    qed
  qed simp_all
qed

lemma set_update_subset: "set (AList.update k v al) \<subseteq> insert (k, v) (set al)"
  by (induction al) auto

lemma list_all_update:
  "P (k, v) \<Longrightarrow> list_all P al \<Longrightarrow> list_all P (AList.update k v al)"
  using set_update_subset [of k v al] by (auto simp: list_all_iff)

lemma agree_take: "take (length h) h' = h \<Longrightarrow> agree a h h'"
  by (simp add: agree_def take_extends_length take_extends_nth)

lemma agree_trans: "agree a h h1 \<Longrightarrow> agree a h1 h2 \<Longrightarrow> agree a h h2"
  by (auto simp: agree_def)

lemma agree_set_key: "agree a h (set_key h a s v)"
  by (simp add: agree_def set_key_def)

lemma agree_new: "agree a h (h @ [x])"
  by (simp add: agree_def nth_append)

lemma stable_all:
  "list_all (\<lambda>e. tree X n h (snd e)) es \<Longrightarrow> a \<in> X \<Longrightarrow> agree a h h' \<Longrightarrow>
   list_all (\<lambda>e. tree X n h' (snd e)) es \<and>
   map (\<lambda>e. (fst e, view n h' (snd e))) es = map (\<lambda>e. (fst e, view n h (snd e))) es"
  using stable [of X n h _ a h'] by (induction es) auto

lemma norm_loop_view:
  assumes IH: "\<And>h v r h'. tree X m h v \<Longrightarrow> (\<forall>x\<in>X. x < length h) \<Longrightarrow> N h v = Some (r, h') \<Longrightarrow>
        (case r of None \<Rightarrow> True | Some d \<Rightarrow> tree X m h' (RDict (Some d))) \<and>
        NormalizeDict (view m h v) = map_option (cont (m - 1) h') r"
    and frame: "\<And>h v r h'. N h v = Some (r, h') \<Longrightarrow> take (length h) h' = h"
    and a: "a \<in> X"
  shows "norm_loop N es a hc = Some h' \<Longrightarrow> (\<forall>x\<in>X. x < length hc) \<Longrightarrow>
         list_all (\<lambda>e. tree X m hc (snd e)) es \<Longrightarrow>
         list_all (\<lambda>e. tree X m hc (snd e)) (hc ! a) \<Longrightarrow>
         list_all (\<lambda>e. plain_string (fst e)) (hc ! a) \<Longrightarrow> distinct (map fst (hc ! a)) \<Longrightarrow>
         agree a hc h' \<and>
         list_all (\<lambda>e. tree X m h' (snd e)) (h' ! a) \<and>
         list_all (\<lambda>e. plain_string (fst e)) (h' ! a) \<and> distinct (map fst (h' ! a)) \<and>
         cont m h' a = fold body (map (\<lambda>e. (fst e, view m hc (snd e))) es) (cont m hc a)"
proof (induction es arbitrary: hc)
  case Nil
  then show ?case by (simp add: agree_def)
next
  case (Cons e es)
  obtain key cv where e: "e = (key, cv)" by (cases e)
  from Cons.prems(3) e have cv: "tree X m hc cv" and rest: "list_all (\<lambda>e. tree X m hc (snd e)) es"
    by simp_all
  from a Cons.prems(2) have alen: "a < length hc" by blast
  show ?case
  proof (cases "unwrap key")
    case (KOther x)
    with Cons.prems(1) e have "norm_loop N es a hc = Some h'" by simp
    from Cons.IH [OF this Cons.prems(2) rest Cons.prems(4,5,6)] show ?thesis
      using e KOther by simp
  next
    case (KString s)
    with Cons.prems(1) e obtain newVal h1 where n: "N hc cv = Some (newVal, h1)"
      by (auto split: option.splits)
    define v2 where "v2 = (case newVal of None \<Rightarrow> cv | Some d \<Rightarrow> RDict (Some d))"
    define h2 where "h2 = set_key h1 a s v2"
    from Cons.prems(1) e KString n have loop: "norm_loop N es a h2 = Some h'"
      by (auto simp: v2_def h2_def split: option.splits)
    note ih = IH [OF cv Cons.prems(2) n]
    have ag1: "agree a hc h1" using frame [OF n] by (rule agree_take)
    have ag12: "agree a h1 h2" unfolding h2_def by (rule agree_set_key)
    have ag2: "agree a hc h2" using ag1 ag12 by (rule agree_trans)
    have obj1: "h1 ! a = hc ! a" using frame [OF n] alen by (rule take_extends_nth)
    have len2: "\<forall>x\<in>X. x < length h2" using Cons.prems(2) ag2 by (auto simp: agree_def)
    have alen1: "a < length h1" using alen ag1 by (simp add: agree_def)
    have v2_1: "tree X m h1 v2"
    proof (cases newVal)
      case None
      then show ?thesis using stable [OF cv a ag1] by (simp add: v2_def)
    next
      case (Some d)
      then show ?thesis using ih by (simp add: v2_def)
    qed
    have v2: "tree X m h2 v2" and v2_view: "view m h2 v2 = view m h1 v2"
      using stable [OF v2_1 a ag12] by simp_all
    have v2_stored: "view m h1 v2 = stored (view m hc cv)"
    proof (cases newVal)
      case None
      with ih have "NormalizeDict (view m hc cv) = None" by simp
      then have "stored (view m hc cv) = view m hc cv" by (simp add: stored_def)
      then show ?thesis using stable [OF cv a ag1] None by (simp add: v2_def)
    next
      case (Some d)
      with ih have t: "tree X m h1 (RDict (Some d))"
        and nd: "NormalizeDict (view m hc cv) = Some (cont (m - 1) h1 d)" by simp_all
      from t obtain k where m: "m = Suc k" by (cases m) simp_all
      have "view m h1 (RDict (Some d)) = VDict (cont (m - 1) h1 d)"
        by (simp add: m cont_def)
      then show ?thesis using nd Some by (simp add: v2_def stored_def)
    qed
    have obj2: "h2 ! a = AList.update (Direct (KString s)) v2 (hc ! a)"
      using alen1 obj1 by (simp add: h2_def set_key_def)
    have old2: "list_all (\<lambda>e. tree X m h2 (snd e)) (hc ! a)"
      and old2_view: "map (\<lambda>e. (fst e, view m h2 (snd e))) (hc ! a) =
          map (\<lambda>e. (fst e, view m hc (snd e))) (hc ! a)"
      using stable_all [OF Cons.prems(4) a ag2] by simp_all
    have t2: "list_all (\<lambda>e. tree X m h2 (snd e)) (h2 ! a)"
      unfolding obj2 using v2 old2 by (intro list_all_update) simp_all
    have p2: "list_all (\<lambda>e. plain_string (fst e)) (h2 ! a)"
      unfolding obj2 using Cons.prems(5) by (intro list_all_update) simp_all
    have d2: "distinct (map fst (h2 ! a))"
      unfolding obj2 using Cons.prems(6) by (rule AList.distinct_update)
    have rest2: "list_all (\<lambda>e. tree X m h2 (snd e)) es"
      and rest2_view: "map (\<lambda>e. (fst e, view m h2 (snd e))) es =
          map (\<lambda>e. (fst e, view m hc (snd e))) es"
      using stable_all [OF rest a ag2] by simp_all
    have c2: "cont m h2 a = (cont m hc a)(s \<mapsto> stored (view m hc cv))"
    proof (rule ext)
      fix s'
      show "cont m h2 a s' = ((cont m hc a)(s \<mapsto> stored (view m hc cv))) s'"
      proof (cases "s' = s")
        case True
        then show ?thesis
          by (simp add: cont_def obj2 AList.update_conv' v2_view v2_stored)
      next
        case False
        have "map_option (view m h2) (map_of (hc ! a) k) = map_option (view m hc) (map_of (hc ! a) k)" for k
        proof (cases "map_of (hc ! a) k")
          case None
          then show ?thesis by simp
        next
          case (Some x)
          then have "(k, x) \<in> set (hc ! a)" by (rule map_of_SomeD)
          with Cons.prems(4) have "tree X m hc x" by (auto simp: list_all_iff)
          from stable [OF this a ag2] Some show ?thesis by simp
        qed
        with False show ?thesis
          by (simp add: cont_def obj2 AList.update_conv')
      qed
    qed
    from Cons.IH [OF loop len2 rest2 t2 p2 d2]
    have "agree a h2 h'" and fin: "list_all (\<lambda>e. tree X m h' (snd e)) (h' ! a)"
      "list_all (\<lambda>e. plain_string (fst e)) (h' ! a)" "distinct (map fst (h' ! a))"
      and c: "cont m h' a = fold body (map (\<lambda>e. (fst e, view m h2 (snd e))) es) (cont m h2 a)"
      by simp_all
    have "agree a hc h'" using ag2 \<open>agree a h2 h'\<close> by (rule agree_trans)
    moreover have "cont m h' a =
        fold body (map (\<lambda>e. (fst e, view m hc (snd e))) (e # es)) (cont m hc a)"
      using c by (simp add: rest2_view c2 e KString)
    ultimately show ?thesis using fin by simp
  qed
qed

lemma plain_key: "plain_string k \<Longrightarrow> k = Direct (KString (key_text k))"
  by (cases k rule: plain_string.cases) simp_all

lemma NormalizeDict_plain:
  assumes p: "list_all (\<lambda>e. plain_string (fst e)) es" and d: "distinct (map fst es)"
  shows "NormalizeDict (VDict (\<lambda>s. map_option f (map_of es (Direct (KString s))))) =
         NormalizeDict (VMap (map (\<lambda>e. (fst e, f (snd e))) es))"
proof -
  let ?kvs = "map (\<lambda>e. (key_text (fst e), f (snd e))) es"
  from p have rebuilt: "map (\<lambda>(k, cv). (Direct (KString k), cv)) ?kvs = map (\<lambda>e. (fst e, f (snd e))) es"
    by (induction es) (auto dest: plain_key)
  from p have m: "map_of ?kvs s = map_option f (map_of es (Direct (KString s)))" for s
  proof (induction es)
    case Nil
    then show ?case by simp
  next
    case (Cons e es)
    then have "fst e = Direct (KString (key_text (fst e)))" by (auto dest: plain_key)
    then have "key_text (fst e) = s \<longleftrightarrow> fst e = Direct (KString s)" by (metis key_text.simps(1))
    with Cons show ?case by (cases e) auto
  qed
  have inj: "inj_on key_text (set (map fst es))"
  proof (rule inj_onI)
    fix k k' assume "k \<in> set (map fst es)" "k' \<in> set (map fst es)" "key_text k = key_text k'"
    moreover from this p have "plain_string k" "plain_string k'" by (auto simp: list_all_iff)
    ultimately show "k = k'" using plain_key [of k] plain_key [of k'] by simp
  qed
  have "distinct (map key_text (map fst es))"
    unfolding distinct_map [of key_text "map fst es"] using d inj by blast
  then have "distinct (map fst ?kvs)" by (simp add: comp_def)
  from NormalizeDict_VDict_loop [OF this] show ?thesis
    by (simp only: rebuilt) (simp only: m [abs_def, symmetric])
qed

lemma NormalizeDict_heap_view:
  "tree X n h v \<Longrightarrow> (\<forall>x\<in>X. x < length h) \<Longrightarrow> NormalizeDict_heap n h v = Some (r, h') \<Longrightarrow>
   (case r of None \<Rightarrow> True | Some d \<Rightarrow> tree X n h' (RDict (Some d))) \<and>
   NormalizeDict (view n h v) = map_option (cont (n - 1) h') r"
proof (induction n arbitrary: X h v r h')
  case 0
  then show ?case by (cases v) auto
next
  case (Suc m)
  have map_case: "tree X (Suc m) h' (RDict (Some d)) \<and>
      Some (fold body (map (\<lambda>e. (fst e, view m h (snd e))) es) Map.empty) = Some (cont m h' d)"
    if run: "norm_map (NormalizeDict_heap m) es h = Some (Some d, h')"
      and es: "list_all (\<lambda>e. tree X m h (snd e)) es" for es d
  proof -
    let ?a = "length h" and ?h1 = "h @ [[]]" and ?X = "insert (length h) X"
    from run have d: "d = ?a" and loop: "norm_loop (NormalizeDict_heap m) es ?a ?h1 = Some h'"
      by (auto simp: norm_map_def new_dict_def split: option.splits)
    have ag: "agree ?a h ?h1" by (rule agree_new)
    have "list_all (\<lambda>e. tree ?X m h (snd e)) es"
      using es by (auto simp: list_all_iff intro: tree_insert)
    from stable_all [OF this _ ag]
    have es1: "list_all (\<lambda>e. tree ?X m ?h1 (snd e)) es"
      and es1_view: "map (\<lambda>e. (fst e, view m ?h1 (snd e))) es = map (\<lambda>e. (fst e, view m h (snd e))) es"
      by simp_all
    have len: "\<forall>x\<in>?X. x < length ?h1" using Suc.prems(2) by auto
    have "agree ?a ?h1 h' \<and>
         list_all (\<lambda>e. tree ?X m h' (snd e)) (h' ! ?a) \<and>
         list_all (\<lambda>e. plain_string (fst e)) (h' ! ?a) \<and> distinct (map fst (h' ! ?a)) \<and>
         cont m h' ?a = fold body (map (\<lambda>e. (fst e, view m ?h1 (snd e))) es) (cont m ?h1 ?a)"
    proof (rule norm_loop_view [where N = "NormalizeDict_heap m" and X = ?X, OF _ _ _ loop len es1])
      show "(case r of None \<Rightarrow> True | Some d \<Rightarrow> tree ?X m h' (RDict (Some d))) \<and>
          NormalizeDict (view m h v) = map_option (cont (m - 1) h') r"
        if "tree ?X m h v" "\<forall>x\<in>?X. x < length h" "NormalizeDict_heap m h v = Some (r, h')"
        for h v r h'
        using that by (rule Suc.IH)
      show "take (length h) h' = h" if "NormalizeDict_heap m h v = Some (r, h')" for h v r h'
        using that by (rule NormalizeDict_heap_frame)
    qed simp_all
    then have ag': "agree ?a ?h1 h'"
      and t: "list_all (\<lambda>e. tree ?X m h' (snd e)) (h' ! ?a)"
      and p: "list_all (\<lambda>e. plain_string (fst e)) (h' ! ?a)" "distinct (map fst (h' ! ?a))"
      and c: "cont m h' ?a = fold body (map (\<lambda>e. (fst e, view m h (snd e))) es) (cont m ?h1 ?a)"
      by (simp_all add: es1_view)
    have "cont m ?h1 ?a = Map.empty" by (simp add: cont_def)
    with c have c': "cont m h' ?a = fold body (map (\<lambda>e. (fst e, view m h (snd e))) es) Map.empty"
      by simp
    have "list_all (\<lambda>e. tree X m h' (snd e)) (h' ! ?a)"
      using t by (auto simp: list_all_iff intro: tree_mono)
    moreover have "?a \<notin> X" using Suc.prems(2) by auto
    moreover have "?a < length h'" using ag' by (simp add: agree_def)
    ultimately have "tree X (Suc m) h' (RDict (Some ?a))" using p by simp
    then show ?thesis using c' d by simp
  qed
  show ?case
  proof (cases v)
    case RNil
    with Suc.prems show ?thesis by auto
  next
    case (ROther k)
    with Suc.prems show ?thesis by auto
  next
    case (RMap r0)
    with Suc.prems(3) obtain d where r: "r = Some d"
      and run: "norm_map (NormalizeDict_heap m) (entries_of h r0) h = Some (Some d, h')"
      by (auto simp: norm_map_def new_dict_def split: option.splits)
    have "list_all (\<lambda>e. tree X m h (snd e)) (entries_of h r0)"
      using Suc.prems(1) RMap by (auto simp: entries_of_def split: option.splits)
    from map_case [OF run this] show ?thesis
      using r RMap by (simp add: NormalizeDict_VMap del: NormalizeDict.simps)
  next
    case (RDict r0)
    with Suc.prems(3) obtain d where r: "r = Some d"
      and run: "norm_map (NormalizeDict_heap m) (entries_of h r0) h = Some (Some d, h')"
      by (auto simp: norm_map_def new_dict_def split: option.splits)
    have es: "list_all (\<lambda>e. tree X m h (snd e)) (entries_of h r0)"
      using Suc.prems(1) RDict by (auto simp: entries_of_def split: option.splits)
    note mc = map_case [OF run es]
    show ?thesis
    proof (cases r0)
      case None
      with mc r RDict show ?thesis by (simp add: entries_of_def)
    next
      case (Some b)
      with Suc.prems(1) RDict have "list_all (\<lambda>e. plain_string (fst e)) (h ! b)"
        "distinct (map fst (h ! b))" by simp_all
      from NormalizeDict_plain [OF this, of "view m h"]
      have "NormalizeDict (view (Suc m) h v) =
          NormalizeDict (VMap (map (\<lambda>e. (fst e, view m h (snd e))) (h ! b)))"
        using RDict Some by simp
      with mc r Some show ?thesis
        by (simp add: NormalizeDict_VMap entries_of_def del: NormalizeDict.simps)
    qed
  qed
qed

lemma DictChild_heap_view:
  assumes t: "tree {} (Suc n) h (RDict dict)"
    and run: "DictChild_heap n h dict key = Some (r, h')"
  shows "DictChild (contents n h dict) key = contents (n - 1) h' r"
proof -
  let ?st = "map_of (entries_of h dict) (Direct (KString key))"
  have look: "lookup (contents n h dict) key = map_option (view n h) ?st"
    by (cases dict) (simp_all add: contents_def lookup_def cont_def entries_of_def)
  have tv: "tree {} n h v" if "?st = Some v" for v
  proof -
    from that have "(Direct (KString key), v) \<in> set (entries_of h dict)" by (rule map_of_SomeD)
    with t show ?thesis by (cases dict) (auto simp: entries_of_def list_all_iff)
  qed
  show ?thesis
  proof (cases ?st)
    case None
    with run look show ?thesis by (simp add: DictChild_heap_def DictChild_def contents_def)
  next
    case (Some v)
    show ?thesis
    proof (cases v)
      case RNil
      with Some run look show ?thesis by (simp add: DictChild_heap_def DictChild_def contents_def)
    next
      case (ROther k)
      with Some run look show ?thesis by (simp add: DictChild_heap_def DictChild_def contents_def)
    next
      case (RDict child)
      from tv [OF Some] RDict obtain k where n: "n = Suc k" by (cases n) simp_all
      from Some RDict run have "r = child" "h' = h" by (simp_all add: DictChild_heap_def)
      then show ?thesis using Some RDict look n
        by (cases child) (simp_all add: DictChild_def contents_def cont_def)
    next
      case (RMap m)
      from tv [OF Some] RMap obtain k where n: "n = Suc k" by (cases n) simp_all
      from Some RMap run have "NormalizeDict_heap n h (RMap m) = Some (r, h')"
        by (simp add: DictChild_heap_def)
      from NormalizeDict_heap_view [OF tv [OF Some, unfolded RMap] _ this]
      have "NormalizeDict (view n h (RMap m)) = contents (n - 1) h' r"
        by (simp add: contents_def)
      then show ?thesis using Some RMap look n by (simp add: DictChild_def)
    qed
  qed
qed

lemma DictChild_heap0:
  "DictChild_heap 2 heap0 (Some 0) ''features'' = Some (Some 1, heap0)"
  "DictChild_heap 2 heap0 (Some 0) ''none'' = Some (None, heap0)"
  "DictChild_heap 2 heap0 (Some 0) ''absent'' = Some (None, heap0)"
  "DictChild_heap 2 heap0 (Some 0) ''nildict'' = Some (None, heap0)"
  "DictChild_heap 2 heap0 (Some 0) ''count'' = Some (None, heap0)"
  "DictChild_heap 2 heap0 (Some 0) ''nilmap'' = Some (Some 4, heap0 @ [[]])"
  by (simp_all add: DictChild_heap_def heap0_def entries_of_def eval_nat_numeral norm_map_def new_dict_def)

lemma DictChild_heap0_foreign:
  "DictChild_heap 2 heap0 (Some 0) ''foreign'' = Some (Some 4, heap1)"
  by (simp add: DictChild_heap_def heap0_def heap1_def entries_of_def eval_nat_numeral norm_map_def new_dict_def set_key_def)

text \<open>
  C6, amended. When the value stored at the key is a finite tree, \<^verbatim>\<open>DictChild\<close> returns.
  What it returns is nil exactly when the key is absent, when the stored value is the
  nil interface or a nil \<^verbatim>\<open>map[string]interface{}\<close>, or when it is not a map. No map that
  existed before the call is changed: the heap after the call starts with the heap
  before it. When the stored value is a \<^verbatim>\<open>map[string]interface{}\<close>, the result is the
  stored reference itself and the heap is the same, so nothing is copied or allocated.
  When it is a map of another type, nil or not, the result is what \<^verbatim>\<open>NormalizeDict\<close>
  returns for it, a new object. (By \<open>DictChild_heap_view\<close> above, the contents of the
  result are in each case those that \<open>DictChild\<close> gives on the contents of \<open>dict\<close>.)
\<close>

theorem DictChild_heap_result:
  "((\<forall>v. stored_at h dict key = Some v \<longrightarrow> bounded n h v) \<longrightarrow>
      (\<exists>r h'. DictChild_heap n h dict key = Some (r, h'))) \<and>
   (\<forall>r h'. DictChild_heap n h dict key = Some (r, h') \<longrightarrow>
      (r = None \<longleftrightarrow>
         stored_at h dict key = None \<or> stored_at h dict key = Some RNil \<or>
         stored_at h dict key = Some (RDict None) \<or>
         (\<exists>k. stored_at h dict key = Some (ROther k))) \<and>
      take (length h) h' = h \<and>
      (\<forall>child. stored_at h dict key = Some (RDict child) \<longrightarrow> r = child \<and> h' = h) \<and>
      (\<forall>m. stored_at h dict key = Some (RMap m) \<longrightarrow>
         r = Some (length h) \<and> NormalizeDict_heap n h (RMap m) = Some (r, h')))"
proof (cases "stored_at h dict key")
  case None
  then show ?thesis by (auto simp: DictChild_heap_def stored_at_def)
next
  case (Some v)
  show ?thesis
  proof (cases v)
    case RNil
    with Some show ?thesis by (auto simp: DictChild_heap_def stored_at_def)
  next
    case (RDict child)
    with Some show ?thesis by (auto simp: DictChild_heap_def stored_at_def)
  next
    case (ROther k)
    with Some show ?thesis by (auto simp: DictChild_heap_def stored_at_def)
  next
    case (RMap m)
    with Some have eq: "DictChild_heap n h dict key = NormalizeDict_heap n h (RMap m)"
      by (simp add: DictChild_heap_def stored_at_def)
    have "r = Some (length h) \<and> take (length h) h' = h"
      if "NormalizeDict_heap n h (RMap m) = Some (r, h')" for r h'
      using NormalizeDict_heap_frame [OF that] NormalizeDict_heap_ref [OF that] by simp
    moreover have "\<exists>r h'. NormalizeDict_heap n h (RMap m) = Some (r, h')"
      if "bounded n h (RMap m)"
      using that by (rule NormalizeDict_heap_returns)
    ultimately show ?thesis using Some RMap eq by auto
  qed
qed

theorem DictChild_heap_result_witness:
  "bounded 2 heap0 (RMap (Some 2)) \<and>
   DictChild_heap 2 heap0 (Some 0) ''absent'' = Some (None, heap0) \<and>
   DictChild_heap 2 heap0 (Some 0) ''none'' = Some (None, heap0) \<and>
   DictChild_heap 2 heap0 (Some 0) ''count'' = Some (None, heap0) \<and>
   DictChild_heap 2 heap0 (Some 0) ''features'' = Some (Some 1, heap0) \<and>
   DictChild_heap 2 heap0 (Some 0) ''foreign'' = Some (Some 4, heap1) \<and>
   NormalizeDict_heap 2 heap0 (RMap (Some 2)) = Some (Some 4, heap1) \<and>
   take (length heap0) heap1 = heap0"
proof -
  have s: "stored_at heap0 (Some 0) ''foreign'' = Some (RMap (Some 2))"
    by (simp add: stored_at_def heap0_def entries_of_def)
  have b: "bounded 2 heap0 (RMap (Some 2))"
    by (simp add: heap0_def eval_nat_numeral)
  then have h1: "\<forall>v. stored_at heap0 (Some 0) ''foreign'' = Some v \<longrightarrow> bounded 2 heap0 v"
    by (simp add: s)
  from DictChild_heap_result [of heap0 "Some 0" "''foreign''" 2, THEN conjunct1, THEN mp, OF h1]
  obtain r h' where ret: "DictChild_heap 2 heap0 (Some 0) ''foreign'' = Some (r, h')"
    by blast
  from DictChild_heap_result [of heap0 "Some 0" "''foreign''" 2, THEN conjunct2, rule_format, OF ret] s
  have "take (length heap0) h' = heap0" "NormalizeDict_heap 2 heap0 (RMap (Some 2)) = Some (r, h')"
    by simp_all
  moreover have "r = Some 4" "h' = heap1" using ret by (simp_all add: DictChild_heap0_foreign)
  ultimately show ?thesis using b by (simp add: DictChild_heap0 DictChild_heap0_foreign)
qed

text \<open>
  Without the nil \<^verbatim>\<open>map[string]interface{}\<close> among the cases the property fails: for such
  a stored value, which is not the nil interface and is of the type of a dict,
  \<^verbatim>\<open>DictChild\<close> returns nil; and for a nil map of another type, as nil as the first, it
  returns a dict. This holds on the contents and on the heap.
\<close>

theorem DictChild_nil_maps:
  "DictChild (Some [''k'' \<mapsto> VNilDict]) ''k'' = None \<and>
   DictChild (Some [''k'' \<mapsto> VMap []]) ''k'' = Some Map.empty \<and>
   DictChild_heap 2 heap0 (Some 0) ''nildict'' = Some (None, heap0) \<and>
   DictChild_heap 2 heap0 (Some 0) ''nilmap'' = Some (Some 4, heap0 @ [[]])"
  by (simp add: DictChild_def lookup_def DictChild_heap0)


section \<open>The mutator\<close>

text \<open>
  C8. \<^verbatim>\<open>SetOption\<close> of the nil dict returns a reference to a new object, one that the
  store did not hold, whose contents are the single entry of \<open>name\<close> and \<open>v\<close>; the
  objects of the store are as before. \<^verbatim>\<open>SetOption\<close> of a reference \<open>a\<close> returns \<open>a\<close>
  itself; nothing is allocated, the contents of \<open>a\<close> are those before with \<open>name\<close> set
  to \<open>v\<close>, and every other object is as before.
\<close>

theorem SetOption_result:
  "(case SetOption st None name v of
      (r, st') \<Rightarrow>
        r = Some (length st) \<and> length st' = Suc (length st) \<and>
        deref st' r = Some [name \<mapsto> v] \<and>
        (\<forall>b. b < length st \<longrightarrow> st' ! b = st ! b)) \<and>
   (a < length st \<longrightarrow>
      (case SetOption st (Some a) name v of
         (r, st') \<Rightarrow>
           r = Some a \<and> length st' = length st \<and>
           deref st' r = Some ((st ! a)(name \<mapsto> v)) \<and>
           (\<forall>b. b < length st \<and> b \<noteq> a \<longrightarrow> st' ! b = st ! b)))"
  by (auto simp: SetOption_def alloc_def deref_def nth_append)

theorem SetOption_result_witness:
  "SetOption [] None ''k'' (VInt 1) = (Some 0, [[''k'' \<mapsto> VInt 1]]) \<and>
   SetOption [[''k'' \<mapsto> VInt 1], features] (Some 0) ''k'' (VInt 2) =
     (Some 0, [[''k'' \<mapsto> VInt 2], features])"
proof -
  have h: "0 < length [[''k'' \<mapsto> VInt 1], features]" by simp
  have "SetOption [] None ''k'' (VInt 1) = (Some 0, [[''k'' \<mapsto> VInt 1]])"
    using SetOption_result [of "[]" "''k''" "VInt 1", THEN conjunct1]
    by (simp add: SetOption_def alloc_def)
  moreover have "SetOption [[''k'' \<mapsto> VInt 1], features] (Some 0) ''k'' (VInt 2) =
     (Some 0, [[''k'' \<mapsto> VInt 2], features])"
    using SetOption_result [of "[[''k'' \<mapsto> VInt 1], features]" "''k''" "VInt 2" 0,
        THEN conjunct2, rule_format, OF h]
    by (simp add: SetOption_def)
  ultimately show ?thesis by simp
qed

end
